theory Spec2Isabelle
  imports Main "HOL-Library.Sublist"
begin

section \<open>JavaScript values used by the program\<close>

text \<open>
  A JavaScript number that may be \<open>undefined\<close> (the value of an array hole) is an
  \<open>int option\<close>: \<open>None\<close> is \<open>undefined\<close>. A relational comparison with \<open>undefined\<close> is
  false and arithmetic on it stays undefined (NaN). All numbers of the distance kernel are
  integers far below \<open>2^53\<close>, where the host arithmetic is exact.
\<close>

type_synonym jsnum = "int option"

fun js_lt :: "jsnum \<Rightarrow> jsnum \<Rightarrow> bool" where
  "js_lt (Some x) (Some y) = (x < y)"
| "js_lt _ _ = False"

fun js_le :: "jsnum \<Rightarrow> jsnum \<Rightarrow> bool" where
  "js_le (Some x) (Some y) = (x \<le> y)"
| "js_le _ _ = False"

fun js_inc :: "jsnum \<Rightarrow> jsnum" where
  "js_inc (Some x) = Some (x + 1)"
| "js_inc None = None"

text \<open>
  A JavaScript array of numbers: the defined cells and the \<open>length\<close> property. Reading a
  cell that was never written gives \<open>undefined\<close>; writing at or beyond \<open>length\<close> extends
  the array.
\<close>

record js_array =
  cells :: "nat \<Rightarrow> jsnum"
  alen :: nat

definition empty_array :: js_array where
  "empty_array = \<lparr>cells = (\<lambda>_. None), alen = 0\<rparr>"

definition new_Array :: "nat \<Rightarrow> js_array" where
  "new_Array n = \<lparr>cells = (\<lambda>_. None), alen = n\<rparr>"

definition js_get :: "js_array \<Rightarrow> nat \<Rightarrow> jsnum" where
  "js_get a j = cells a j"

definition js_set :: "js_array \<Rightarrow> nat \<Rightarrow> jsnum \<Rightarrow> js_array" where
  "js_set a j v = \<lparr>cells = (cells a)(j := v), alen = max (alen a) (Suc j)\<rparr>"

text \<open>\<open>s[n]\<close> on a string: \<open>undefined\<close> out of range.\<close>

definition js_char :: "string \<Rightarrow> nat \<Rightarrow> char option" where
  "js_char s n = (if n < length s then Some (s ! n) else None)"

text \<open>\<open>s[k]\<close> for an index computed in integers, which may be negative.\<close>

definition js_char_at :: "string \<Rightarrow> int \<Rightarrow> char option" where
  "js_char_at s k = (if 0 \<le> k \<and> k < int (length s) then Some (s ! nat k) else None)"

definition MAX_SAFE_INTEGER :: int where
  "MAX_SAFE_INTEGER = 9007199254740991"

section \<open>edit-distance.js\<close>

subsection \<open>The helpers module\<close>

text \<open>
  \<open>nullDistanceResults\<close> of helpers.js: the value of an edit distance when one or both
  strings are \<open>null\<close>.
\<close>

definition nullDistanceResults :: "string option \<Rightarrow> string option \<Rightarrow> int \<Rightarrow> jsnum" where
  "nullDistanceResults string1 string2 maxDistance =
     (case string1 of
        None \<Rightarrow>
          (case string2 of
             None \<Rightarrow> Some 0
           | Some s2 \<Rightarrow> if int (length s2) \<le> maxDistance then Some (int (length s2)) else Some (- 1))
      | Some s1 \<Rightarrow> if int (length s1) \<le> maxDistance then Some (int (length s1)) else Some (- 1))"

text \<open>
  \<open>prefixSuffixPrep\<close> of helpers.js. Its first loop drops the common suffix: it steps
  \<open>len1\<close> and \<open>len2\<close> down together while the characters before them are the same.
  \<open>string2[len2 - 1]\<close> is \<open>undefined\<close> once \<open>len2\<close> is 0, so the loop stops there as long
  as \<open>len1\<close> is within \<open>string1\<close>, as it is from the start.
\<close>

function suffix_loop :: "string \<Rightarrow> string \<Rightarrow> nat \<Rightarrow> nat \<Rightarrow> nat \<times> nat" where
  "suffix_loop string1 string2 len1 len2 =
     (if len1 \<noteq> 0 \<and> js_char_at string1 (int len1 - 1) = js_char_at string2 (int len2 - 1)
      then suffix_loop string1 string2 (len1 - 1) (len2 - 1)
      else (len1, len2))"
  by pat_completeness auto
termination
  by (relation "measure (\<lambda>(string1, string2, len1, len2). len1)") auto

declare suffix_loop.simps [simp del]

text \<open>
  Its second loop counts the common prefix. \<open>start\<close> goes up from 0 by one and \<open>len1\<close>
  is not below it, so the test \<open>start !== len1\<close> of the source is \<open>start < len1\<close>.
\<close>

function prefix_loop :: "string \<Rightarrow> string \<Rightarrow> nat \<Rightarrow> nat \<Rightarrow> nat" where
  "prefix_loop string1 string2 len1 start =
     (if start < len1 \<and> js_char string1 start = js_char string2 start
      then prefix_loop string1 string2 len1 (Suc start)
      else start)"
  by pat_completeness auto
termination
  by (relation "measure (\<lambda>(string1, string2, len1, start). len1 - start)") auto

declare prefix_loop.simps [simp del]

text \<open>
  The function expects \<open>string1\<close> not to be longer than \<open>string2\<close>, which \<open>distance\<close>
  sees to before it calls; then \<open>start\<close> is at most \<open>len1\<close> and \<open>len1\<close> at most \<open>len2\<close>,
  and the two subtractions stay in the naturals.
\<close>

definition prefixSuffixPrep :: "string \<Rightarrow> string \<Rightarrow> nat \<times> nat \<times> nat" where
  "prefixSuffixPrep string1 string2 =
     (case suffix_loop string1 string2 (length string1) (length string2) of
        (len1, len2) \<Rightarrow>
          (let start = prefix_loop string1 string2 len1 0
           in if start \<noteq> 0 then (len1 - start, len2 - start, start)
              else (len1, len2, start)))"

subsection \<open>The inner loop body\<close>

text \<open>
  The variables of one row of the dynamic program. The bodies of the inner loops of
  \<open>_distance\<close> (lines 116-144) and of \<open>_distanceMax\<close> (lines 186-215) are the same
  statements; \<open>cell_step\<close> is that body for column \<open>j\<close> of row \<open>i\<close>.
\<close>

record row_state =
  char1Costs :: js_array
  prevChar1Costs :: js_array
  currentCost :: jsnum
  leftCharCost :: jsnum
  aboveCharCost :: jsnum
  nextTransCost :: jsnum
  char2 :: "char option"

definition cell_step ::
  "string \<Rightarrow> nat \<Rightarrow> nat \<Rightarrow> char option \<Rightarrow> char option \<Rightarrow> nat \<Rightarrow> row_state \<Rightarrow> row_state" where
  "cell_step string2 start i char1 prevChar1 j s =
     (let thisTransCost = nextTransCost s;
          nextTransCost' = js_get (prevChar1Costs s) j;
          currentCost0 = leftCharCost s;
          prevChar1Costs' = js_set (prevChar1Costs s) j (leftCharCost s);
          leftCharCost' = js_get (char1Costs s) j;
          prevChar2 = char2 s;
          char2' = js_char string2 (start + j);
          currentCost' =
            (if char1 \<noteq> char2' then
               (let c1 = (if js_lt (aboveCharCost s) currentCost0 then aboveCharCost s else currentCost0);
                    c2 = (if js_lt leftCharCost' c1 then leftCharCost' else c1);
                    c3 = js_inc c2
                in if i \<noteq> 0 \<and> j \<noteq> 0 \<and> char1 = prevChar2 \<and> prevChar1 = char2'
                      \<and> js_lt (js_inc thisTransCost) c3
                   then js_inc thisTransCost else c3)
             else currentCost0)
      in \<lparr>char1Costs = js_set (char1Costs s) j currentCost',
          prevChar1Costs = prevChar1Costs',
          currentCost = currentCost',
          leftCharCost = leftCharCost',
          aboveCharCost = currentCost',
          nextTransCost = nextTransCost',
          char2 = char2'\<rparr>)"

text \<open>The state of a row before its first column.\<close>

definition row_init :: "js_array \<Rightarrow> js_array \<Rightarrow> jsnum \<Rightarrow> nat \<Rightarrow> row_state" where
  "row_init c p cur i =
     \<lparr>char1Costs = c, prevChar1Costs = p, currentCost = cur,
      leftCharCost = Some (int i), aboveCharCost = Some (int i),
      nextTransCost = Some 0, char2 = Some CHR '' ''\<rparr>"

subsection \<open>\<open>_distance\<close>\<close>

text \<open>
  The variables that live across the rows: \<open>char1\<close>, \<open>currentCost\<close> and the two arrays.
  \<open>char1Costs\<close> is a fresh local array; \<open>prevChar1Costs\<close> is the caller's array, mutated
  in place, so the function also returns it.
\<close>

record rows_state =
  r_char1 :: "char option"
  r_currentCost :: jsnum
  r_char1Costs :: js_array
  r_prevChar1Costs :: js_array

definition distance_row :: "string \<Rightarrow> string \<Rightarrow> nat \<Rightarrow> nat \<Rightarrow> nat \<Rightarrow> rows_state \<Rightarrow> rows_state" where
  "distance_row string1 string2 len2 start i r =
     (let prevChar1 = r_char1 r;
          char1 = js_char string1 (start + i);
          s = fold (cell_step string2 start i char1 prevChar1) [0..<len2]
                (row_init (r_char1Costs r) (r_prevChar1Costs r) (r_currentCost r) i)
      in \<lparr>r_char1 = char1, r_currentCost = currentCost s,
          r_char1Costs = char1Costs s, r_prevChar1Costs = prevChar1Costs s\<rparr>)"

definition distance_impl ::
  "string \<Rightarrow> string \<Rightarrow> nat \<Rightarrow> nat \<Rightarrow> nat \<Rightarrow> js_array \<Rightarrow> js_array \<Rightarrow> jsnum \<times> js_array" where
  "distance_impl string1 string2 len1 len2 start char1Costs0 prevChar1Costs0 =
     (let c = fold (\<lambda>j a. js_set a j (Some (int j + 1))) [0..<len2] empty_array;
          r = fold (distance_row string1 string2 len2 start) [0..<len1]
                \<lparr>r_char1 = Some CHR '' '', r_currentCost = Some 0,
                 r_char1Costs = c, r_prevChar1Costs = prevChar1Costs0\<rparr>
      in (r_currentCost r, r_prevChar1Costs r))"

subsection \<open>\<open>_distanceMax\<close>\<close>

definition distanceMax_row ::
  "string \<Rightarrow> string \<Rightarrow> nat \<Rightarrow> nat \<Rightarrow> nat \<Rightarrow> int \<Rightarrow> rows_state \<Rightarrow> rows_state" where
  "distanceMax_row string1 string2 start i jStart jEnd r =
     (let prevChar1 = r_char1 r;
          char1 = js_char string1 (start + i);
          s = fold (cell_step string2 start i char1 prevChar1) [jStart..<nat jEnd]
                (row_init (r_char1Costs r) (r_prevChar1Costs r) (r_currentCost r) i)
      in \<lparr>r_char1 = char1, r_currentCost = currentCost s,
          r_char1Costs = char1Costs s, r_prevChar1Costs = prevChar1Costs s\<rparr>)"

text \<open>
  The outer loop of \<open>_distanceMax\<close> from row \<open>i\<close> on, with \<open>jStart\<close> and \<open>jEnd\<close> as they
  are before the row: the loop returns -1 from inside as soon as the cell on the
  lower-right diagonal exceeds \<open>maxDistance\<close>.
\<close>

function distanceMax_rows ::
  "string \<Rightarrow> string \<Rightarrow> nat \<Rightarrow> nat \<Rightarrow> nat \<Rightarrow> int \<Rightarrow> nat \<Rightarrow> nat \<Rightarrow> int \<Rightarrow> rows_state
     \<Rightarrow> jsnum \<times> js_array" where
  "distanceMax_rows string1 string2 len1 len2 start maxDistance i jStart jEnd r =
     (if i < len1 then
        (let lenDiff = int len2 - int len1;
             jStartOffset = maxDistance - lenDiff;
             jStart' = jStart + (if int i > jStartOffset then 1 else 0);
             jEnd' = jEnd + (if jEnd < int len2 then 1 else 0);
             r' = distanceMax_row string1 string2 start i jStart' jEnd' r
         in if js_lt (Some maxDistance) (js_get (r_char1Costs r') (nat (int i + lenDiff)))
            then (Some (- 1), r_prevChar1Costs r')
            else distanceMax_rows string1 string2 len1 len2 start maxDistance (Suc i) jStart' jEnd' r')
      else (if js_le (r_currentCost r) (Some maxDistance) then r_currentCost r else Some (- 1),
            r_prevChar1Costs r))"
  by pat_completeness auto
termination
  by (relation "measure (\<lambda>(string1, string2, len1, len2, start, maxDistance, i, jStart, jEnd, r). len1 - i)")
     auto

declare distanceMax_rows.simps [simp del]

definition distanceMax_impl ::
  "string \<Rightarrow> string \<Rightarrow> nat \<Rightarrow> nat \<Rightarrow> nat \<Rightarrow> int \<Rightarrow> js_array \<Rightarrow> js_array \<Rightarrow> jsnum \<times> js_array" where
  "distanceMax_impl string1 string2 len1 len2 start maxDistance char1Costs0 prevChar1Costs0 =
     (let c = fold (\<lambda>j a. js_set a j (if int j < maxDistance then Some (int j + 1)
                                        else Some (maxDistance + 1)))
                [0..<len2] empty_array
      in distanceMax_rows string1 string2 len1 len2 start maxDistance 0 0 maxDistance
           \<lparr>r_char1 = Some CHR '' '', r_currentCost = Some 0,
            r_char1Costs = c, r_prevChar1Costs = prevChar1Costs0\<rparr>)"

subsection \<open>\<open>distance\<close>\<close>

text \<open>
  The object holds the two scratch arrays between calls. \<open>maxDistance\<close> is an integer
  here, so \<open>Math.ceil\<close> leaves it as it is.
\<close>

record EditDistance =
  baseChar1Costs :: js_array
  basePrevChar1Costs :: js_array

definition new_EditDistance :: EditDistance where
  "new_EditDistance = \<lparr>baseChar1Costs = empty_array, basePrevChar1Costs = empty_array\<rparr>"

definition distance ::
  "EditDistance \<Rightarrow> string option \<Rightarrow> string option \<Rightarrow> int \<Rightarrow> jsnum \<times> EditDistance" where
  "distance this string1 string2 maxDistance =
     (case (string1, string2) of
        (Some s1, Some s2) \<Rightarrow>
          if maxDistance \<le> 0 then ((if s1 = s2 then Some 0 else Some (- 1)), this)
          else
            (let iMaxDistance = (if maxDistance \<le> MAX_SAFE_INTEGER then maxDistance
                                 else MAX_SAFE_INTEGER);
                 (t1, t2) = (if length s1 > length s2 then (s2, s1) else (s1, s2))
             in if int (length t2) - int (length t1) > iMaxDistance then (Some (- 1), this)
                else
                  (case prefixSuffixPrep t1 t2 of (len1, len2, start) \<Rightarrow>
                     if len1 = 0
                     then ((if int len2 \<le> iMaxDistance then Some (int len2) else Some (- 1)), this)
                     else
                       (let this' = (if len2 > alen (baseChar1Costs this)
                                     then \<lparr>baseChar1Costs = new_Array len2,
                                           basePrevChar1Costs = new_Array len2\<rparr>
                                     else this)
                        in if iMaxDistance < int len2
                           then (case distanceMax_impl t1 t2 len1 len2 start iMaxDistance
                                        (baseChar1Costs this') (basePrevChar1Costs this') of
                                   (d, p) \<Rightarrow> (d, this'\<lparr>basePrevChar1Costs := p\<rparr>))
                           else (case distance_impl t1 t2 len1 len2 start
                                        (baseChar1Costs this') (basePrevChar1Costs this') of
                                   (d, p) \<Rightarrow> (d, this'\<lparr>basePrevChar1Costs := p\<rparr>)))))
      | _ \<Rightarrow> (nullDistanceResults string1 string2 maxDistance, this))"

definition compare ::
  "EditDistance \<Rightarrow> string option \<Rightarrow> string option \<Rightarrow> int \<Rightarrow> jsnum \<times> EditDistance" where
  "compare this string1 string2 maxDistance = distance this string1 string2 maxDistance"

section \<open>The reference: the optimal string alignment dynamic program\<close>

text \<open>
  The unbounded dynamic program of the OSA distance, as the spec words it: the cell for
  the first \<open>i\<close> characters of \<open>a\<close> and the first \<open>j\<close> characters of \<open>b\<close> is the minimum
  of delete, insert, substitute and, where the last two characters of both are each
  other's swap, transposition.
\<close>

function osa :: "'a list \<Rightarrow> 'a list \<Rightarrow> nat \<Rightarrow> nat \<Rightarrow> nat" where
  "osa a b 0 j = j"
| "osa a b (Suc i) 0 = Suc i"
| "osa a b (Suc i) (Suc j) =
     (let d = min (min (osa a b i (Suc j) + 1) (osa a b (Suc i) j + 1))
                  (osa a b i j + (if a ! i = b ! j then 0 else 1))
      in if 0 < i \<and> 0 < j \<and> a ! i = b ! (j - 1) \<and> a ! (i - 1) = b ! j
         then min d (osa a b (i - 1) (j - 1) + 1) else d)"
  by pat_completeness auto
termination
  by (relation "measure (\<lambda>(a, b, i, j). i + j)") auto

definition osa_distance :: "'a list \<Rightarrow> 'a list \<Rightarrow> nat" where
  "osa_distance a b = osa a b (length a) (length b)"

section \<open>index.js\<close>

subsection \<open>\<open>SuggestItem\<close>\<close>

text \<open>
  A suggestion. Its count is what \<open>words.get\<close> gave, so it is \<open>undefined\<close> for a term
  that is not in the table.
\<close>

record SuggestItem =
  si_term :: string
  si_distance :: int
  si_count :: jsnum

fun js_sub :: "jsnum \<Rightarrow> jsnum \<Rightarrow> jsnum" where
  "js_sub (Some x) (Some y) = Some (x - y)"
| "js_sub _ _ = None"

definition compareTo :: "SuggestItem \<Rightarrow> SuggestItem \<Rightarrow> jsnum" where
  "compareTo this other =
     (if si_distance this = si_distance other then js_sub (si_count this) (si_count other)
      else Some (si_distance other - si_distance this))"

text \<open>
  \<open>Array.prototype.sort\<close> is stable, and a comparator result that is NaN counts as 0.
  For a consistent comparator the sorted array is determined; insertion from the right,
  each element going before the first one it does not exceed, computes it.
\<close>

fun sort_insert :: "('a \<Rightarrow> 'a \<Rightarrow> jsnum) \<Rightarrow> 'a \<Rightarrow> 'a list \<Rightarrow> 'a list" where
  "sort_insert cmp x [] = [x]"
| "sort_insert cmp x (y # ys) =
     (if (case cmp x y of None \<Rightarrow> True | Some v \<Rightarrow> v \<le> 0) then x # y # ys
      else y # sort_insert cmp x ys)"

definition js_sort :: "('a \<Rightarrow> 'a \<Rightarrow> jsnum) \<Rightarrow> 'a list \<Rightarrow> 'a list" where
  "js_sort cmp xs = foldr (sort_insert cmp) xs []"

subsection \<open>\<open>SymSpell\<close>: the index\<close>

datatype Verbosity = TOP | CLOSEST | ALL_V

definition N :: int where
  "N = 1024908267229"

text \<open>
  The two edit-distance settings are natural numbers (the spec's index configuration);
  counts and the count threshold are integers, as \<open>createDictionaryEntry\<close> handles
  the non-positive ones itself. Each \<open>Map\<close> is a partial function; a bucket of the
  deletes map is an array of terms in the order they were pushed.
\<close>

record SymSpell =
  maxDictionaryEditDistance :: nat
  prefixLength :: nat
  countThreshold :: int
  words :: "string \<rightharpoonup> int"
  maxDictionaryWordLength :: nat
  deletes :: "string \<rightharpoonup> string list"
  belowThresholdWords :: "string \<rightharpoonup> int"
  bigrams :: "string \<rightharpoonup> int"
  bigramCountMin :: int

definition new_SymSpell :: "nat \<Rightarrow> nat \<Rightarrow> int \<Rightarrow> SymSpell" where
  "new_SymSpell maxDictionaryEditDistance0 prefixLength0 countThreshold0 =
     \<lparr>maxDictionaryEditDistance = maxDictionaryEditDistance0,
      prefixLength = prefixLength0,
      countThreshold = countThreshold0,
      words = Map.empty,
      maxDictionaryWordLength = 0,
      deletes = Map.empty,
      belowThresholdWords = Map.empty,
      bigrams = Map.empty,
      bigramCountMin = MAX_SAFE_INTEGER\<rparr>"

subsection \<open>\<open>edits\<close> and \<open>editsPrefix\<close>\<close>

text \<open>
  A \<open>Set\<close> of strings that is iterated later is the list of its elements in insertion
  order. \<open>delete_at word i\<close> is \<open>word.slice(0, i) + word.slice(i + 1, word.length)\<close>.
\<close>

definition delete_at :: "string \<Rightarrow> nat \<Rightarrow> string" where
  "delete_at word i = take i word @ drop (Suc i) word"

function edits :: "nat \<Rightarrow> string \<Rightarrow> nat \<Rightarrow> string list \<Rightarrow> string list" where
  "edits maxDictionaryEditDistance0 word editDistance deleteWords =
     (let editDistance' = editDistance + 1
      in if length word > 1 then
           fold (\<lambda>i deleteWords'.
                   (let del = delete_at word i
                    in if del \<notin> set deleteWords' then
                         (let deleteWords'' = deleteWords' @ [del]
                          in if editDistance' < maxDictionaryEditDistance0
                             then edits maxDictionaryEditDistance0 del editDistance' deleteWords''
                             else deleteWords'')
                       else deleteWords'))
             [0..<length word] deleteWords
         else deleteWords)"
  by pat_completeness auto
termination
  by (relation "measure (\<lambda>(m, word, e, dw). length word)") (auto simp: delete_at_def)

declare edits.simps [simp del]

definition editsPrefix :: "SymSpell \<Rightarrow> string \<Rightarrow> string list" where
  "editsPrefix this key =
     (let hashSet = (if length key \<le> maxDictionaryEditDistance this then [[]] else []);
          key' = (if length key > prefixLength this then take (prefixLength this) key else key);
          hashSet' = (if key' \<in> set hashSet then hashSet else hashSet @ [key'])
      in edits (maxDictionaryEditDistance this) key' 0 hashSet')"

subsection \<open>\<open>createDictionaryEntry\<close>\<close>

text \<open>
  Lines 118-140: the term is new and its count has reached the threshold. It goes into
  the words table, and the term is pushed on the bucket of each of its delete variants.
\<close>

definition push_delete :: "string \<Rightarrow> string \<Rightarrow> (string \<rightharpoonup> string list) \<Rightarrow> (string \<rightharpoonup> string list)" where
  "push_delete key del d = d(del \<mapsto> (case d del of None \<Rightarrow> [] | Some bucket \<Rightarrow> bucket) @ [key])"

definition add_word :: "SymSpell \<Rightarrow> string \<Rightarrow> int \<Rightarrow> bool \<times> SymSpell" where
  "add_word this key count =
     (let this1 = this\<lparr>words := (words this)(key \<mapsto> count)\<rparr>;
          this2 = (if length key > maxDictionaryWordLength this1
                   then this1\<lparr>maxDictionaryWordLength := length key\<rparr> else this1);
          edits0 = editsPrefix this2 key
      in (True, this2\<lparr>deletes := fold (push_delete key) edits0 (deletes this2)\<rparr>))"

definition createDictionaryEntry :: "SymSpell \<Rightarrow> string \<Rightarrow> int \<Rightarrow> bool \<times> SymSpell" where
  "createDictionaryEntry this key count0 =
     (if count0 \<le> 0 \<and> countThreshold this > 0 then (False, this)
      else
        (let count = (if count0 \<le> 0 then 0 else count0)
         in if countThreshold this > 1 \<and> belowThresholdWords this key \<noteq> None then
              (let countPrevious = the (belowThresholdWords this key);
                   count' = (if MAX_SAFE_INTEGER - countPrevious > count
                             then countPrevious + count else MAX_SAFE_INTEGER)
               in if count' \<ge> countThreshold this
                  then add_word (this\<lparr>belowThresholdWords := (belowThresholdWords this)(key := None)\<rparr>)
                         key count'
                  else (False, this\<lparr>belowThresholdWords := (belowThresholdWords this)(key \<mapsto> count')\<rparr>))
            else if words this key \<noteq> None then
              (let countPrevious = the (words this key);
                   count' = (if MAX_SAFE_INTEGER - countPrevious > count
                             then countPrevious + count else MAX_SAFE_INTEGER)
               in (False, this\<lparr>words := (words this)(key \<mapsto> count')\<rparr>))
            else if count < countThreshold this then
              (False, this\<lparr>belowThresholdWords := (belowThresholdWords this)(key \<mapsto> count)\<rparr>)
            else add_word this key count))"

text \<open>A dictionary built by a sequence of \<open>createDictionaryEntry\<close> calls.\<close>

definition load_entries :: "SymSpell \<Rightarrow> (string \<times> int) list \<Rightarrow> SymSpell" where
  "load_entries this entries = fold (\<lambda>(key, count) s. snd (createDictionaryEntry s key count)) entries this"

subsection \<open>\<open>lookup\<close>\<close>

text \<open>
  What \<open>lookup\<close> takes from outside: the host's \<open>String.toLowerCase\<close> and
  \<open>Helpers.transferCasingSimilar\<close> (helpers.js, built on the \<open>difflib\<close> package), both
  used only when \<open>transferCasing\<close> is set. They are parameters of the model.
\<close>

record helpers =
  toLowerCase :: "string \<Rightarrow> string"
  transferCasingSimilar :: "string \<Rightarrow> string \<Rightarrow> string"

text \<open>
  Helpers that leave every string as it is: a stand-in where a lookup is evaluated with
  \<open>transferCasing\<close> off, which never calls them.
\<close>

definition identity_helpers :: helpers where
  "identity_helpers = \<lparr>toLowerCase = (\<lambda>s. s), transferCasingSimilar = (\<lambda>original s. s)\<rparr>"

text \<open>
  The options object. \<open>ignoreToken\<close> is a regular expression in the source; the model
  takes the predicate "the input matches it", \<open>None\<close> when the option is absent.
\<close>

record lookup_options =
  includeUnknown :: bool
  ignoreToken :: "(string \<Rightarrow> bool) option"
  transferCasing :: bool

definition no_options :: lookup_options where
  "no_options = \<lparr>includeUnknown = False, ignoreToken = None, transferCasing = False\<rparr>"

text \<open>\<open>s.substr(k)\<close> for an index computed in integers.\<close>

definition js_substr_from :: "string \<Rightarrow> int \<Rightarrow> string" where
  "js_substr_from s k = (if k < 0 then drop (nat (max (int (length s) + k) 0)) s else drop (nat k) s)"

text \<open>\<open>deleteInSuggestionPrefix\<close>: the inner \<open>while\<close> and the \<open>for\<close> over the delete.\<close>

function skip_to_char :: "char option \<Rightarrow> string \<Rightarrow> nat \<Rightarrow> nat \<Rightarrow> nat" where
  "skip_to_char delChar suggestion suggestionLen j =
     (if j < suggestionLen \<and> delChar \<noteq> js_char suggestion j
      then skip_to_char delChar suggestion suggestionLen (Suc j) else j)"
  by pat_completeness auto
termination
  by (relation "measure (\<lambda>(c, s, n, j). n - j)") auto

declare skip_to_char.simps [simp del]

fun delete_chars_in_order :: "string \<Rightarrow> nat list \<Rightarrow> string \<Rightarrow> nat \<Rightarrow> nat \<Rightarrow> bool" where
  "delete_chars_in_order del [] suggestion suggestionLen j = True"
| "delete_chars_in_order del (i # rest) suggestion suggestionLen j =
     (let delChar = js_char del i;
          j' = skip_to_char delChar suggestion suggestionLen j
      in if j' = suggestionLen then False
         else delete_chars_in_order del rest suggestion suggestionLen j')"

definition deleteInSuggestionPrefix :: "SymSpell \<Rightarrow> string \<Rightarrow> nat \<Rightarrow> string \<Rightarrow> nat \<Rightarrow> bool" where
  "deleteInSuggestionPrefix this del deleteLen suggestion suggestionLen0 =
     (if deleteLen = 0 then True
      else
        (let suggestionLen = (if prefixLength this < suggestionLen0 then prefixLength this
                              else suggestionLen0)
         in delete_chars_in_order del [0..<deleteLen] suggestion suggestionLen 0))"

text \<open>
  The variables of \<open>lookup\<close> that its loops change. The two \<open>Set\<close>s are only asked for
  membership, so they are sets.
\<close>

record lookup_state =
  suggestions :: "SuggestItem list"
  maxEditDistance2 :: int
  consideredDeletes :: "string set"
  consideredSuggestions :: "string set"
  candidatePointer :: nat
  candidates :: "string list"
  distanceComparer :: EditDistance

text \<open>
  Lines 427-458: a suggestion with its distance is put into the result according to the
  verbosity.
\<close>

definition accept_suggestion :: "SymSpell \<Rightarrow> Verbosity \<Rightarrow> string \<Rightarrow> jsnum \<Rightarrow> lookup_state \<Rightarrow> lookup_state" where
  "accept_suggestion this verbosity suggestion distance0 st =
     (if js_le distance0 (Some (maxEditDistance2 st)) then
        (let distance = the distance0;
             suggestionCount = words this suggestion;
             si = \<lparr>si_term = suggestion, si_distance = distance, si_count = suggestionCount\<rparr>
         in if suggestions st \<noteq> [] \<and> verbosity = TOP then
              (if distance < maxEditDistance2 st
                  \<or> js_lt (si_count (hd (suggestions st))) suggestionCount
               then st\<lparr>maxEditDistance2 := distance, suggestions := (suggestions st)[0 := si]\<rparr>
               else st)
            else
              (let st1 = (if suggestions st \<noteq> [] \<and> verbosity = CLOSEST
                             \<and> distance < maxEditDistance2 st
                          then st\<lparr>suggestions := []\<rparr> else st);
                   st2 = (if verbosity \<noteq> ALL_V then st1\<lparr>maxEditDistance2 := distance\<rparr> else st1)
               in st2\<lparr>suggestions := suggestions st2 @ [si]\<rparr>))
      else st)"

text \<open>
  Lines 334-458: the body of the loop over the terms of a bucket. Every \<open>continue\<close> of the
  source returns the state as it is at that point.
\<close>

definition lookup_suggestion ::
  "SymSpell \<Rightarrow> string \<Rightarrow> int \<Rightarrow> int \<Rightarrow> Verbosity \<Rightarrow> int \<Rightarrow> string \<Rightarrow> string \<Rightarrow> lookup_state
     \<Rightarrow> lookup_state" where
  "lookup_suggestion this input inputLen inputPrefixLen verbosity maxEditDistance candidate suggestion st =
     (let candidateLen = int (length candidate);
          suggestionLen = int (length suggestion)
      in if suggestion = input then st
         else if \<bar>suggestionLen - inputLen\<bar> > maxEditDistance2 st
                 \<or> suggestionLen < candidateLen
                 \<or> (suggestionLen = candidateLen \<and> suggestion \<noteq> candidate) then st
         else
           (let suggPrefixLen = min suggestionLen (int (prefixLength this))
            in if suggPrefixLen > inputPrefixLen \<and> suggPrefixLen - candidateLen > maxEditDistance2 st
               then st
               else if candidateLen = 0 then
                 (let distance = max inputLen suggestionLen
                  in if distance > maxEditDistance2 st \<or> suggestion \<in> consideredSuggestions st
                     then st
                     else accept_suggestion this verbosity suggestion (Some distance) st)
               else if suggestionLen = 1 then
                 (let distance = (if hd suggestion \<notin> set input then inputLen else inputLen - 1)
                  in if distance > maxEditDistance2 st \<or> suggestion \<in> consideredSuggestions st
                     then st
                     else accept_suggestion this verbosity suggestion (Some distance) st)
               else
                 (let min0 = (if int (prefixLength this) - maxEditDistance = candidateLen
                              then min inputLen suggestionLen - int (prefixLength this) else 0)
                  in if int (prefixLength this) - maxEditDistance = candidateLen
                        \<and> ((min0 > 1
                             \<and> js_substr_from input (inputLen + 1 - min0)
                                 \<noteq> js_substr_from suggestion (suggestionLen + 1 - min0))
                            \<or> (min0 > 0
                                \<and> js_char_at input (inputLen - min0)
                                    \<noteq> js_char_at suggestion (suggestionLen - min0)
                                \<and> (js_char_at input (inputLen - min0 - 1)
                                      \<noteq> js_char_at suggestion (suggestionLen - min0)
                                    \<or> js_char_at input (inputLen - min0)
                                        \<noteq> js_char_at suggestion (suggestionLen - min0 - 1))))
                     then st
                     else if (verbosity \<noteq> ALL_V
                              \<and> \<not> deleteInSuggestionPrefix this candidate (length candidate)
                                    suggestion (length suggestion))
                             \<or> suggestion \<in> consideredSuggestions st
                     then st
                     else
                       (let st1 = st\<lparr>consideredSuggestions := insert suggestion (consideredSuggestions st)\<rparr>;
                            (distance, comparer') =
                               compare (distanceComparer st1) (Some input) (Some suggestion)
                                 (maxEditDistance2 st1);
                            st2 = st1\<lparr>distanceComparer := comparer'\<rparr>
                        in if js_lt distance (Some 0) then st2
                           else accept_suggestion this verbosity suggestion distance st2))))"

text \<open>Lines 472-479: the deletes of a candidate that were not seen yet are queued.\<close>

definition add_edit :: "string \<Rightarrow> nat \<Rightarrow> lookup_state \<Rightarrow> lookup_state" where
  "add_edit candidate i st =
     (let del = delete_at candidate i
      in if del \<notin> consideredDeletes st
         then st\<lparr>consideredDeletes := insert del (consideredDeletes st),
                 candidates := candidates st @ [del]\<rparr>
         else st)"

definition bucket_loop ::
  "SymSpell \<Rightarrow> string \<Rightarrow> int \<Rightarrow> int \<Rightarrow> Verbosity \<Rightarrow> int \<Rightarrow> string \<Rightarrow> lookup_state \<Rightarrow> lookup_state" where
  "bucket_loop this input inputLen inputPrefixLen verbosity maxEditDistance candidate st =
     (case deletes this candidate of
        Some dictSuggestions \<Rightarrow>
          fold (lookup_suggestion this input inputLen inputPrefixLen verbosity maxEditDistance candidate)
            dictSuggestions st
      | None \<Rightarrow> st)"

text \<open>
  The \<open>while\<close> loop over the queue of candidates. It ends because a candidate is only
  ever replaced by shorter strings, at most one for each of its characters:
  \<open>candidate_weight\<close> of the pending candidates decreases.
\<close>

fun candidate_weight :: "nat \<Rightarrow> nat" where
  "candidate_weight 0 = 1"
| "candidate_weight (Suc n) = Suc (Suc n * candidate_weight n)"

definition pending_weight :: "lookup_state \<Rightarrow> nat" where
  "pending_weight st =
     sum_list (map (\<lambda>c. candidate_weight (length c)) (drop (candidatePointer st) (candidates st)))"

lemma accept_suggestion_queue:
  "candidates (accept_suggestion this verbosity suggestion d st) = candidates st
   \<and> candidatePointer (accept_suggestion this verbosity suggestion d st) = candidatePointer st"
  by (simp add: accept_suggestion_def Let_def)

lemma lookup_suggestion_queue:
  "candidates (lookup_suggestion this input inputLen inputPrefixLen verbosity maxEditDistance candidate suggestion st)
     = candidates st
   \<and> candidatePointer (lookup_suggestion this input inputLen inputPrefixLen verbosity maxEditDistance candidate suggestion st)
     = candidatePointer st"
  by (simp add: lookup_suggestion_def Let_def accept_suggestion_queue split: prod.split)

lemma bucket_loop_queue:
  "candidates (bucket_loop this input inputLen inputPrefixLen verbosity maxEditDistance candidate st)
     = candidates st
   \<and> candidatePointer (bucket_loop this input inputLen inputPrefixLen verbosity maxEditDistance candidate st)
     = candidatePointer st"
proof -
  have "candidates (fold (lookup_suggestion this input inputLen inputPrefixLen verbosity maxEditDistance candidate) xs st)
          = candidates st
        \<and> candidatePointer (fold (lookup_suggestion this input inputLen inputPrefixLen verbosity maxEditDistance candidate) xs st)
          = candidatePointer st" for xs
    by (induction xs arbitrary: st) (simp_all add: lookup_suggestion_queue)
  then show ?thesis
    by (simp add: bucket_loop_def split: option.split)
qed

lemma add_edits_queue:
  "\<exists>new. candidates (fold (add_edit candidate) is st) = candidates st @ new
         \<and> candidatePointer (fold (add_edit candidate) is st) = candidatePointer st
         \<and> length new \<le> length is
         \<and> (\<forall>d \<in> set new. \<exists>i \<in> set is. d = delete_at candidate i)"
proof (induction "is" arbitrary: st)
  case Nil
  then show ?case by simp
next
  case (Cons i "is")
  obtain new where new:
    "candidates (fold (add_edit candidate) is (add_edit candidate i st))
       = candidates (add_edit candidate i st) @ new"
    "candidatePointer (fold (add_edit candidate) is (add_edit candidate i st))
       = candidatePointer (add_edit candidate i st)"
    "length new \<le> length is"
    "\<forall>d \<in> set new. \<exists>i \<in> set is. d = delete_at candidate i"
    using Cons.IH [of "add_edit candidate i st"] by blast
  show ?case
  proof (cases "delete_at candidate i \<in> consideredDeletes st")
    case True
    then have "add_edit candidate i st = st"
      by (simp add: add_edit_def)
    with new show ?thesis
      by (intro exI [of _ new]) auto
  next
    case False
    then have "candidates (add_edit candidate i st) = candidates st @ [delete_at candidate i]"
      and "candidatePointer (add_edit candidate i st) = candidatePointer st"
      by (simp_all add: add_edit_def Let_def)
    with new show ?thesis
      by (intro exI [of _ "delete_at candidate i # new"]) auto
  qed
qed

lemma sum_list_bounded:
  "(\<And>x. x \<in> set xs \<Longrightarrow> f x \<le> (b::nat)) \<Longrightarrow> sum_list (map f xs) \<le> length xs * b"
  by (induction xs) (auto simp: add_mono)

lemma pending_weight_add_edits:
  assumes "candidatePointer st = Suc p" "p < length (candidates st)"
  shows "pending_weight (fold (add_edit (candidates st ! p)) [0..<length (candidates st ! p)] st)
           < pending_weight (st\<lparr>candidatePointer := p\<rparr>)"
proof -
  let ?c = "candidates st ! p"
  obtain new where new:
    "candidates (fold (add_edit ?c) [0..<length ?c] st) = candidates st @ new"
    "candidatePointer (fold (add_edit ?c) [0..<length ?c] st) = candidatePointer st"
    "length new \<le> length [0..<length ?c]"
    "\<forall>d \<in> set new. \<exists>i \<in> set [0..<length ?c]. d = delete_at ?c i"
    using add_edits_queue [of ?c "[0..<length ?c]" st] by blast
  have short: "length d = length ?c - 1" if "d \<in> set new" for d
    using new(4) that by (auto simp: delete_at_def)
  have bound: "sum_list (map (\<lambda>c. candidate_weight (length c)) new)
                 \<le> length new * candidate_weight (length ?c - 1)"
    by (rule sum_list_bounded) (simp add: short)
  have "length new * candidate_weight (length ?c - 1) < candidate_weight (length ?c)"
  proof (cases "length ?c")
    case 0
    with new(3) show ?thesis by simp
  next
    case (Suc n)
    have "length new * candidate_weight n \<le> Suc n * candidate_weight n"
      using new(3) Suc by (intro mult_le_mono1) simp
    then show ?thesis
      using Suc by simp
  qed
  with bound have lt: "sum_list (map (\<lambda>c. candidate_weight (length c)) new) < candidate_weight (length ?c)"
    by linarith
  have split: "drop p (candidates st) = ?c # drop (Suc p) (candidates st)"
    using assms(2) by (simp add: Cons_nth_drop_Suc)
  show ?thesis
    using lt assms by (simp add: pending_weight_def new split)
qed

lemma pending_weight_advance:
  assumes "p < length (candidates st)"
  shows "pending_weight (st\<lparr>candidatePointer := Suc p\<rparr>) < pending_weight (st\<lparr>candidatePointer := p\<rparr>)"
proof -
  have "drop p (candidates st) = candidates st ! p # drop (Suc p) (candidates st)"
    using assms by (simp add: Cons_nth_drop_Suc)
  moreover have "0 < candidate_weight n" for n
    by (cases n) simp_all
  ultimately show ?thesis
    by (simp add: pending_weight_def)
qed

function lookup_loop ::
  "SymSpell \<Rightarrow> string \<Rightarrow> int \<Rightarrow> int \<Rightarrow> Verbosity \<Rightarrow> int \<Rightarrow> lookup_state \<Rightarrow> lookup_state" where
  "lookup_loop this input inputLen inputPrefixLen verbosity maxEditDistance st =
     (if candidatePointer st < length (candidates st) then
        (let candidate = candidates st ! candidatePointer st;
             st1 = st\<lparr>candidatePointer := Suc (candidatePointer st)\<rparr>;
             candidateLen = int (length candidate);
             lengthDiff = inputPrefixLen - candidateLen
         in if lengthDiff > maxEditDistance2 st1 then
              (if verbosity = ALL_V
               then lookup_loop this input inputLen inputPrefixLen verbosity maxEditDistance st1
               else st1)
            else
              (let st2 = bucket_loop this input inputLen inputPrefixLen verbosity maxEditDistance
                           candidate st1
               in if lengthDiff < maxEditDistance \<and> candidateLen \<le> int (prefixLength this) then
                    (if verbosity \<noteq> ALL_V \<and> lengthDiff \<ge> maxEditDistance2 st2
                     then lookup_loop this input inputLen inputPrefixLen verbosity maxEditDistance st2
                     else lookup_loop this input inputLen inputPrefixLen verbosity maxEditDistance
                            (fold (add_edit candidate) [0..<length candidate] st2))
                  else lookup_loop this input inputLen inputPrefixLen verbosity maxEditDistance st2))
      else st)"
  by pat_completeness auto

termination
proof (relation "measure (\<lambda>(this, input, inputLen, inputPrefixLen, verbosity, maxEditDistance, st). pending_weight st)", goal_cases)
  case 1
  then show ?case by simp
next
  case (2 this input inputLen inputPrefixLen verbosity maxEditDistance st candidate st1 candidateLen lengthDiff)
  then show ?case
    using pending_weight_advance [of "candidatePointer st" st] by simp
next
  case (3 this input inputLen inputPrefixLen verbosity maxEditDistance st candidate st1 candidateLen lengthDiff st2)
  then have "pending_weight st2 = pending_weight st1"
    by (simp add: pending_weight_def bucket_loop_queue)
  with 3 show ?case
    using pending_weight_advance [of "candidatePointer st" st] by simp
next
  case (4 this input inputLen inputPrefixLen verbosity maxEditDistance st candidate st1 candidateLen lengthDiff st2)
  then have q: "candidates st2 = candidates st" "candidatePointer st2 = Suc (candidatePointer st)"
    by (simp_all add: bucket_loop_queue)
  have "pending_weight (fold (add_edit (candidates st2 ! candidatePointer st))
                          [0..<length (candidates st2 ! candidatePointer st)] st2)
          < pending_weight (st2\<lparr>candidatePointer := candidatePointer st\<rparr>)"
    using 4(1) q by (intro pending_weight_add_edits) simp_all
  moreover have "pending_weight (st2\<lparr>candidatePointer := candidatePointer st\<rparr>) = pending_weight st"
    by (simp add: pending_weight_def q)
  ultimately show ?case
    using 4(2) q by simp
next
  case (5 this input inputLen inputPrefixLen verbosity maxEditDistance st candidate st1 candidateLen lengthDiff st2)
  then have "pending_weight st2 = pending_weight st1"
    by (simp add: pending_weight_def bucket_loop_queue)
  with 5 show ?case
    using pending_weight_advance [of "candidatePointer st" st] by simp
qed

declare lookup_loop.simps [simp del]

text \<open>
  \<open>lookup\<close>. \<open>maxEditDistance0\<close> is \<open>None\<close> for the default \<open>null\<close>. \<open>inputLen\<close> is taken
  before the input is lowercased, as in the source.
\<close>

definition earlyExit :: "lookup_options \<Rightarrow> string \<Rightarrow> int \<Rightarrow> SuggestItem list \<Rightarrow> SuggestItem list" where
  "earlyExit opts input maxEditDistance suggestions0 =
     (if includeUnknown opts \<and> suggestions0 = []
      then suggestions0 @ [\<lparr>si_term = input, si_distance = maxEditDistance + 1, si_count = Some 0\<rparr>]
      else suggestions0)"

definition lookup ::
  "helpers \<Rightarrow> SymSpell \<Rightarrow> string \<Rightarrow> Verbosity \<Rightarrow> int option \<Rightarrow> lookup_options \<Rightarrow> SuggestItem list" where
  "lookup h this input0 verbosity maxEditDistance0 opts =
     (let maxEditDistance = (case maxEditDistance0 of
                               None \<Rightarrow> int (maxDictionaryEditDistance this)
                             | Some m \<Rightarrow> m);
          inputLen = int (length input0);
          originalPhrase = (if transferCasing opts then input0 else []);
          input = (if transferCasing opts then toLowerCase h input0 else input0)
      in if inputLen - maxEditDistance > int (maxDictionaryWordLength this)
         then earlyExit opts input maxEditDistance []
         else
           (let suggestions1 =
                  (case words this input of
                     Some suggestionCount \<Rightarrow>
                       [\<lparr>si_term = input, si_distance = 0, si_count = Some suggestionCount\<rparr>]
                   | None \<Rightarrow> [])
            in if words this input \<noteq> None \<and> verbosity \<noteq> ALL_V
               then earlyExit opts input maxEditDistance suggestions1
               else
                 (let matched = (case ignoreToken opts of None \<Rightarrow> False | Some re \<Rightarrow> re input);
                      suggestions2 =
                        (if matched
                         then suggestions1 @ [\<lparr>si_term = input, si_distance = 0, si_count = Some 1\<rparr>]
                         else suggestions1)
                  in if matched \<and> verbosity \<noteq> ALL_V
                     then earlyExit opts input maxEditDistance suggestions2
                     else if maxEditDistance = 0
                     then earlyExit opts input maxEditDistance suggestions2
                     else
                       (let inputPrefixLen = (if inputLen > int (prefixLength this)
                                              then int (prefixLength this) else inputLen);
                            candidates0 = (if inputLen > int (prefixLength this)
                                           then [take (prefixLength this) input] else [input]);
                            st = lookup_loop this input inputLen inputPrefixLen verbosity maxEditDistance
                                   \<lparr>suggestions = suggestions2,
                                    maxEditDistance2 = maxEditDistance,
                                    consideredDeletes = {},
                                    consideredSuggestions = {input},
                                    candidatePointer = 0,
                                    candidates = candidates0,
                                    distanceComparer = new_EditDistance\<rparr>;
                            suggestions3 = (if length (suggestions st) > 1
                                            then rev (js_sort compareTo (suggestions st))
                                            else suggestions st);
                            suggestions4 =
                              (if transferCasing opts
                               then map (\<lambda>s. \<lparr>si_term = transferCasingSimilar h originalPhrase (si_term s),
                                               si_distance = si_distance s, si_count = si_count s\<rparr>)
                                      suggestions3
                               else suggestions3)
                        in earlyExit opts input maxEditDistance suggestions4))))"

subsection \<open>\<open>wordSegmentation\<close>\<close>

text \<open>
  The probabilities are IEEE doubles; the model does not compute with them. Their type
  is a parameter \<open>'p\<close>, and the operations the function uses on them come in a record:
  \<open>Math.log10(count / N)\<close>, \<open>Math.log10(10.0 / (N / Math.pow(10.0, length)))\<close>, \<open>+\<close>,
  \<open><\<close> and \<open>x || 0\<close>.
\<close>

record 'p double_ops =
  log10_count :: "jsnum \<Rightarrow> 'p"
  log10_unknown :: "nat \<Rightarrow> 'p"
  dbl_add :: "'p \<Rightarrow> 'p \<Rightarrow> 'p"
  dbl_lt :: "'p \<Rightarrow> 'p \<Rightarrow> bool"
  dbl_or_zero :: "'p \<Rightarrow> 'p"

record 'p composition =
  segmentedString :: string
  correctedString :: string
  distanceSum :: int
  probabilityLogSum :: 'p

datatype js_error = TypeError | RangeError

record segmentation_options =
  ws_maxEditDistance :: "int option"
  ws_maxSegmentationWordLength :: "int option"
  ws_ignoreToken :: "(string \<Rightarrow> bool) option"

text \<open>The characters that \<open>\s\<close> matches, among the characters of the model.\<close>

definition is_whitespace :: "char \<Rightarrow> bool" where
  "is_whitespace c = ((of_char c :: nat) \<in> {9, 10, 11, 12, 13, 32, 160})"

text \<open>
  The array \<open>compositions\<close> and \<open>circularIndex\<close>. The array is read at
  \<open>circularIndex\<close>, which starts at -1, so its cells are indexed by integers; a cell
  that was never written is \<open>undefined\<close>.
\<close>

record 'p segmentation_state =
  compositions :: "int \<Rightarrow> 'p composition option"
  circularIndex :: int

text \<open>
  Lines 834-902: the body of the inner loop, for the part of length \<open>i\<close> that starts at
  \<open>j\<close>. Reading a field of a composition that is \<open>undefined\<close> throws a TypeError. The
  body only runs when \<open>arraySize\<close> is at least 1.
\<close>

definition segmentation_part ::
  "'p double_ops \<Rightarrow> helpers \<Rightarrow> SymSpell \<Rightarrow> string \<Rightarrow> int \<Rightarrow> int \<Rightarrow> (string \<Rightarrow> bool) option \<Rightarrow> int
     \<Rightarrow> nat \<Rightarrow> int \<Rightarrow> 'p segmentation_state \<Rightarrow> js_error + 'p segmentation_state" where
  "segmentation_part ops h this input maxEditDistance maxSegmentationWordLength ignoreToken0 arraySize j i st =
     (let part0 = take (nat i) (drop j input);
          startsWithSpace = (case part0 of [] \<Rightarrow> False | c # _ \<Rightarrow> is_whitespace c);
          part1 = (if startsWithSpace then drop 1 part0 else part0);
          separatorLength = (if startsWithSpace then 0 else (1::int));
          part = filter (\<lambda>c. \<not> is_whitespace c) part1;
          topEd0 = int (length part1) - int (length part);
          results = lookup h this part TOP (Some maxEditDistance)
                      \<lparr>includeUnknown = False, ignoreToken = ignoreToken0, transferCasing = False\<rparr>;
          topResult = (case results of r # _ \<Rightarrow> si_term r | [] \<Rightarrow> part);
          topEd = (case results of r # _ \<Rightarrow> topEd0 + si_distance r
                                 | [] \<Rightarrow> topEd0 + int (length part));
          topProbabilityLog = (case results of r # _ \<Rightarrow> log10_count ops (si_count r)
                                             | [] \<Rightarrow> log10_unknown ops (length part));
          destinationIndex = (i + circularIndex st) mod arraySize
      in if j = 0 then
           Inr (st\<lparr>compositions := (compositions st)(destinationIndex :=
                  Some \<lparr>segmentedString = part, correctedString = topResult,
                        distanceSum = topEd, probabilityLogSum = topProbabilityLog\<rparr>)\<rparr>)
         else
           (case compositions st (circularIndex st) of
              None \<Rightarrow> Inl TypeError
            | Some cur \<Rightarrow>
                (let extended =
                       \<lparr>segmentedString = segmentedString cur @ '' '' @ part,
                        correctedString = correctedString cur @ '' '' @ topResult,
                        distanceSum = distanceSum cur + separatorLength + topEd,
                        probabilityLogSum =
                          dbl_add ops (dbl_or_zero ops (probabilityLogSum cur)) topProbabilityLog\<rparr>;
                     st' = st\<lparr>compositions := (compositions st)(destinationIndex := Some extended)\<rparr>
                 in if i = maxSegmentationWordLength then Inr st'
                    else
                      (case compositions st destinationIndex of
                         None \<Rightarrow> Inl TypeError
                       | Some dest \<Rightarrow>
                           if ((distanceSum cur + topEd = distanceSum dest
                                \<or> distanceSum cur + separatorLength + topEd = distanceSum dest)
                               \<and> dbl_lt ops (probabilityLogSum dest)
                                     (dbl_add ops (probabilityLogSum cur) topProbabilityLog))
                              \<or> distanceSum cur + separatorLength + topEd < distanceSum dest
                           then Inr st' else Inr st))))"

text \<open>A \<open>for\<close> loop whose body may throw.\<close>

fun for_each :: "('a \<Rightarrow> 's \<Rightarrow> js_error + 's) \<Rightarrow> 'a list \<Rightarrow> 's \<Rightarrow> js_error + 's" where
  "for_each body [] st = Inr st"
| "for_each body (x # xs) st =
     (case body x st of Inl e \<Rightarrow> Inl e | Inr st' \<Rightarrow> for_each body xs st')"

text \<open>Lines 829-910: one start position \<open>j\<close>.\<close>

definition segmentation_column ::
  "'p double_ops \<Rightarrow> helpers \<Rightarrow> SymSpell \<Rightarrow> string \<Rightarrow> int \<Rightarrow> int \<Rightarrow> (string \<Rightarrow> bool) option \<Rightarrow> int
     \<Rightarrow> nat \<Rightarrow> 'p segmentation_state \<Rightarrow> js_error + 'p segmentation_state" where
  "segmentation_column ops h this input maxEditDistance maxSegmentationWordLength ignoreToken0 arraySize j st =
     (let imax = min (int (length input) - int j) maxSegmentationWordLength
      in case for_each (segmentation_part ops h this input maxEditDistance maxSegmentationWordLength
                          ignoreToken0 arraySize j) [1..imax] st of
           Inl e \<Rightarrow> Inl e
         | Inr st' \<Rightarrow>
             (let circularIndex' = circularIndex st' + 1
              in Inr (st'\<lparr>circularIndex := (if circularIndex' = arraySize then 0 else circularIndex')\<rparr>)))"

text \<open>
  \<open>wordSegmentation\<close>: \<open>Inr None\<close> is the return value \<open>undefined\<close>. \<open>new Array\<close> of a
  negative length throws a RangeError.
\<close>

definition wordSegmentation ::
  "'p double_ops \<Rightarrow> helpers \<Rightarrow> SymSpell \<Rightarrow> string \<Rightarrow> segmentation_options
     \<Rightarrow> js_error + 'p composition option" where
  "wordSegmentation ops h this input opts =
     (let maxEditDistance = (case ws_maxEditDistance opts of
                               None \<Rightarrow> int (maxDictionaryEditDistance this) | Some m \<Rightarrow> m);
          maxSegmentationWordLength = (case ws_maxSegmentationWordLength opts of
                                         None \<Rightarrow> int (maxDictionaryWordLength this) | Some m \<Rightarrow> m);
          arraySize = min maxSegmentationWordLength (int (length input))
      in if arraySize < 0 then Inl RangeError
         else
           (case for_each (segmentation_column ops h this input maxEditDistance
                             maxSegmentationWordLength (ws_ignoreToken opts) arraySize)
                   [0..<length input] \<lparr>compositions = (\<lambda>_. None), circularIndex = - 1\<rparr> of
              Inl e \<Rightarrow> Inl e
            | Inr st \<Rightarrow> Inr (compositions st (circularIndex st))))"

section \<open>Properties of \<open>createDictionaryEntry\<close>\<close>

lemma add_word_words:
  "words (snd (add_word this key count)) = (words this)(key \<mapsto> count)"
  by (simp add: add_word_def Let_def)

lemma add_word_fields:
  "belowThresholdWords (snd (add_word this key count)) = belowThresholdWords this"
  "countThreshold (snd (add_word this key count)) = countThreshold this"
  "maxDictionaryEditDistance (snd (add_word this key count)) = maxDictionaryEditDistance this"
  "prefixLength (snd (add_word this key count)) = prefixLength this"
  "maxDictionaryWordLength (snd (add_word this key count)) = max (length key) (maxDictionaryWordLength this)"
  "fst (add_word this key count) = True"
  by (simp_all add: add_word_def Let_def)

lemma createDictionaryEntry_config:
  "countThreshold (snd (createDictionaryEntry this key count)) = countThreshold this"
  "maxDictionaryEditDistance (snd (createDictionaryEntry this key count)) = maxDictionaryEditDistance this"
  "prefixLength (snd (createDictionaryEntry this key count)) = prefixLength this"
  by (simp_all add: createDictionaryEntry_def Let_def add_word_fields)

lemma createDictionaryEntry_other:
  assumes "key \<noteq> t"
  shows "words (snd (createDictionaryEntry this key count)) t = words this t"
    and "belowThresholdWords (snd (createDictionaryEntry this key count)) t = belowThresholdWords this t"
  using assms by (simp_all add: createDictionaryEntry_def Let_def add_word_fields add_word_words)

lemma createDictionaryEntry_maxlen:
  "maxDictionaryWordLength this \<le> maxDictionaryWordLength (snd (createDictionaryEntry this key count))"
  by (simp add: createDictionaryEntry_def Let_def add_word_fields)

lemma createDictionaryEntry_fresh:
  assumes "words this t = None" "belowThresholdWords this t = None"
    "countThreshold this \<le> c" "0 < c"
  shows "createDictionaryEntry this t c = add_word this t c"
  using assms by (simp add: createDictionaryEntry_def)

lemma createDictionaryEntry_present:
  assumes "words this t = Some c1" "belowThresholdWords this t = None" "0 < c2"
  shows "createDictionaryEntry this t c2 =
           (False, this\<lparr>words := (words this)(t \<mapsto> (if MAX_SAFE_INTEGER - c1 > c2 then c1 + c2 else MAX_SAFE_INTEGER))\<rparr>)"
  using assms by (simp add: createDictionaryEntry_def)

text \<open>
  Claim C6. On an index that does not hold the term \<open>t\<close> yet, two calls of
  \<open>createDictionaryEntry\<close> with \<open>t\<close> and counts \<open>c1\<close>, \<open>c2\<close> (each positive and at
  least the count threshold): the second call returns false, it leaves the words table
  with the same keys (so the same number of entries) as after the first call, and the
  count of \<open>t\<close> is \<open>c1 + c2\<close>, saturated at \<open>Number.MAX_SAFE_INTEGER\<close>.
\<close>

theorem createDictionaryEntry_twice:
  assumes "words this t = None" and "belowThresholdWords this t = None"
    and "countThreshold this \<le> c1" and "0 < c1"
    and "countThreshold this \<le> c2" and "0 < c2"
  shows "fst (createDictionaryEntry (snd (createDictionaryEntry this t c1)) t c2) = False
       \<and> dom (words (snd (createDictionaryEntry (snd (createDictionaryEntry this t c1)) t c2)))
           = dom (words (snd (createDictionaryEntry this t c1)))
       \<and> card (dom (words (snd (createDictionaryEntry (snd (createDictionaryEntry this t c1)) t c2))))
           = card (dom (words (snd (createDictionaryEntry this t c1))))
       \<and> words (snd (createDictionaryEntry (snd (createDictionaryEntry this t c1)) t c2)) t
           = Some (min (c1 + c2) MAX_SAFE_INTEGER)"
proof -
  let ?s1 = "snd (createDictionaryEntry this t c1)"
  have s1: "words ?s1 t = Some c1" "belowThresholdWords ?s1 t = None"
    using assms by (simp_all add: createDictionaryEntry_fresh add_word_words add_word_fields)
  have second: "createDictionaryEntry ?s1 t c2 =
      (False, ?s1\<lparr>words := (words ?s1)(t \<mapsto> (if MAX_SAFE_INTEGER - c1 > c2 then c1 + c2 else MAX_SAFE_INTEGER))\<rparr>)"
    using s1 assms(6) by (rule createDictionaryEntry_present)
  have "dom ((words ?s1)(t \<mapsto> x)) = dom (words ?s1)" for x
    using s1(1) by auto
  then show ?thesis
    by (simp add: second min_def)
qed

theorem createDictionaryEntry_twice_witness:
  "fst (createDictionaryEntry (snd (createDictionaryEntry (new_SymSpell 2 7 1) ''hello'' 11)) ''hello'' 3) = False
   \<and> words (snd (createDictionaryEntry (snd (createDictionaryEntry (new_SymSpell 2 7 1) ''hello'' 11)) ''hello'' 3)) ''hello''
       = Some 14"
  using createDictionaryEntry_twice [of "new_SymSpell 2 7 1" "''hello''" 11 3]
  by (simp add: new_SymSpell_def MAX_SAFE_INTEGER_def)

section \<open>Properties of \<open>lookup\<close> on a loaded dictionary\<close>

lemma load_entries_Nil: "load_entries this [] = this"
  by (simp add: load_entries_def)

lemma load_entries_Cons:
  "load_entries this ((key, count) # entries)
     = load_entries (snd (createDictionaryEntry this key count)) entries"
  by (simp add: load_entries_def)

lemma load_entries_append:
  "load_entries this (xs @ ys) = load_entries (load_entries this xs) ys"
  by (simp add: load_entries_def)

lemma load_entries_config:
  "countThreshold (load_entries this entries) = countThreshold this
   \<and> maxDictionaryEditDistance (load_entries this entries) = maxDictionaryEditDistance this
   \<and> prefixLength (load_entries this entries) = prefixLength this"
proof (induction entries arbitrary: this)
  case Nil
  show ?case by (simp add: load_entries_Nil)
next
  case (Cons e entries)
  obtain key count where e: "e = (key, count)" by (cases e)
  show ?case
    unfolding e load_entries_Cons by (simp add: Cons.IH createDictionaryEntry_config)
qed

lemma load_entries_other:
  "t \<notin> fst ` set entries \<Longrightarrow>
     words (load_entries this entries) t = words this t
     \<and> belowThresholdWords (load_entries this entries) t = belowThresholdWords this t"
proof (induction entries arbitrary: this)
  case Nil
  show ?case by (simp add: load_entries_Nil)
next
  case (Cons e entries)
  obtain key count where e: "e = (key, count)" by (cases e)
  from Cons.prems have "key \<noteq> t" and rest: "t \<notin> fst ` set entries"
    by (auto simp: e)
  then show ?case
    unfolding e load_entries_Cons by (simp add: Cons.IH [OF rest] createDictionaryEntry_other)
qed

lemma load_entries_maxlen:
  "maxDictionaryWordLength this \<le> maxDictionaryWordLength (load_entries this entries)"
proof (induction entries arbitrary: this)
  case Nil
  show ?case by (simp add: load_entries_Nil)
next
  case (Cons e entries)
  obtain key count where e: "e = (key, count)" by (cases e)
  show ?case
    unfolding e load_entries_Cons
    using Cons.IH [of "snd (createDictionaryEntry this key count)"]
      createDictionaryEntry_maxlen [of this key count]
    by linarith
qed

lemma lookup_exact_match:
  assumes "words this input = Some c" and "length input \<le> maxDictionaryWordLength this"
    and "verbosity \<noteq> ALL_V" and "\<not> transferCasing opts"
  shows "lookup h this input verbosity (Some 0) opts
           = [\<lparr>si_term = input, si_distance = 0, si_count = Some c\<rparr>]"
  using assms by (simp add: lookup_def earlyExit_def)

text \<open>
  Claim C3. A dictionary is loaded into a new index by a sequence of
  \<open>createDictionaryEntry\<close> calls in which the term \<open>t\<close> occurs exactly once, with a
  positive count \<open>c\<close> that is at least the count threshold. Then \<open>lookup(t, TOP, 0)\<close>
  returns the one suggestion with term \<open>t\<close>, distance 0 and count \<open>c\<close>.
\<close>

theorem lookup_inserted_once:
  assumes "t \<notin> fst ` set before" and "t \<notin> fst ` set after"
    and "threshold \<le> c" and "0 < c" and "\<not> transferCasing opts"
  shows "lookup h (load_entries (new_SymSpell m p threshold) (before @ [(t, c)] @ after))
           t TOP (Some 0) opts
         = [\<lparr>si_term = t, si_distance = 0, si_count = Some c\<rparr>]"
proof -
  let ?s0 = "load_entries (new_SymSpell m p threshold) before"
  let ?s1 = "snd (createDictionaryEntry ?s0 t c)"
  let ?s2 = "load_entries ?s1 after"
  have fresh: "words ?s0 t = None" "belowThresholdWords ?s0 t = None"
    using load_entries_other [OF assms(1), of "new_SymSpell m p threshold"]
    by (simp_all add: new_SymSpell_def)
  have "countThreshold ?s0 = threshold"
    by (simp add: load_entries_config new_SymSpell_def)
  then have add: "createDictionaryEntry ?s0 t c = add_word ?s0 t c"
    using fresh assms(3,4) by (intro createDictionaryEntry_fresh) simp_all
  have "words ?s1 t = Some c" and len1: "length t \<le> maxDictionaryWordLength ?s1"
    by (simp_all add: add add_word_words add_word_fields)
  then have "words ?s2 t = Some c"
    using load_entries_other [OF assms(2), of ?s1] by simp
  moreover have "length t \<le> maxDictionaryWordLength ?s2"
    using len1 load_entries_maxlen [of ?s1 after] by linarith
  moreover have "load_entries (new_SymSpell m p threshold) (before @ [(t, c)] @ after) = ?s2"
    by (simp add: load_entries_append load_entries_Cons load_entries_Nil)
  ultimately show ?thesis
    using assms(5) by (simp add: lookup_exact_match)
qed

theorem lookup_inserted_once_witness:
  "lookup identity_helpers
     (load_entries (new_SymSpell 2 7 1) ([(''steam'', 1)] @ [(''pawn'', 4)] @ [(''steem'', 3)]))
     ''pawn'' TOP (Some 0) no_options
   = [\<lparr>si_term = ''pawn'', si_distance = 0, si_count = Some 4\<rparr>]"
  using lookup_inserted_once [of "''pawn''" "[(''steam'', 1)]" "[(''steem'', 3)]" 1 4 no_options
          identity_helpers 2 7]
  by (simp add: no_options_def)

section \<open>The delete variants of a term\<close>

text \<open>The strings obtained from \<open>word\<close> by deleting one character.\<close>

definition single_deletes :: "string \<Rightarrow> string set" where
  "single_deletes word = delete_at word ` {..<length word}"

text \<open>The body of the loop of \<open>edits\<close>, for position \<open>i\<close> of \<open>word\<close>.\<close>

definition edits_step :: "nat \<Rightarrow> string \<Rightarrow> nat \<Rightarrow> nat \<Rightarrow> string list \<Rightarrow> string list" where
  "edits_step m word e i S =
     (if delete_at word i \<notin> set S
      then (if Suc e < m then edits m (delete_at word i) (Suc e) (S @ [delete_at word i])
            else S @ [delete_at word i])
      else S)"

lemma edits_unfold:
  "edits m word e S =
     (if 1 < length word then fold (edits_step m word e) [0..<length word] S else S)"
proof -
  have "edits_step m word e =
          (\<lambda>i S. if delete_at word i \<notin> set S
                 then (if Suc e < m then edits m (delete_at word i) (Suc e) (S @ [delete_at word i])
                       else S @ [delete_at word i])
                 else S)"
    by (intro ext) (simp add: edits_step_def)
  then show ?thesis
    by (subst edits.simps) (simp add: Let_def cong: if_cong)
qed

text \<open>
  The invariant of the set that \<open>edits\<close> fills, for a key of length \<open>L\<close>: each of its
  strings shorter than \<open>n\<close> that the recursion expands has all its single deletes in
  the set.
\<close>

definition expanded_below :: "nat \<Rightarrow> nat \<Rightarrow> nat \<Rightarrow> string set \<Rightarrow> bool" where
  "expanded_below m L n S =
     (\<forall>x \<in> S. length x < n \<and> 1 < length x \<and> L - length x < m \<longrightarrow> single_deletes x \<subseteq> S)"

definition edits_grows :: "string \<Rightarrow> string list \<Rightarrow> string list \<Rightarrow> bool" where
  "edits_grows word S S' =
     (set S \<subseteq> set S' \<and> (\<forall>x \<in> set S' - set S. length x < length word \<and> x \<noteq> []))"

definition edits_post :: "nat \<Rightarrow> nat \<Rightarrow> string \<Rightarrow> string list \<Rightarrow> string list \<Rightarrow> bool" where
  "edits_post m L word S S' =
     (edits_grows word S S'
      \<and> expanded_below m L (length word) (set S')
      \<and> (1 < length word \<longrightarrow> single_deletes word \<subseteq> set S'))"

lemma edits_grows_refl: "edits_grows word S S"
  by (simp add: edits_grows_def)

lemma edits_grows_trans:
  "edits_grows word S S1 \<Longrightarrow> edits_grows word S1 S2 \<Longrightarrow> edits_grows word S S2"
  unfolding edits_grows_def by blast

lemma edits_grows_step:
  assumes "Suc (length del) = length word" "del \<noteq> []" "edits_grows del (S @ [del]) S1"
  shows "edits_grows word S S1"
proof -
  have "set S \<subseteq> set S1"
    using assms(3) by (auto simp: edits_grows_def)
  moreover have "length x < length word \<and> x \<noteq> []" if x: "x \<in> set S1 - set S" for x
  proof (cases "x = del")
    case True
    with assms(1,2) show ?thesis by simp
  next
    case False
    with x have "x \<in> set S1 - set (S @ [del])" by simp
    with assms(3) have "length x < length del \<and> x \<noteq> []"
      unfolding edits_grows_def by blast
    with assms(1) show ?thesis by simp
  qed
  ultimately show ?thesis
    unfolding edits_grows_def by blast
qed

text \<open>One step of the loop keeps the invariant and puts the delete at \<open>i\<close> into the set.\<close>

lemma edits_step_post:
  assumes rec: "Suc e < m \<Longrightarrow> delete_at word i \<notin> set S
                  \<Longrightarrow> edits_post m L (delete_at word i) (S @ [delete_at word i])
                        (edits m (delete_at word i) (Suc e) (S @ [delete_at word i]))"
    and i: "i < length word"
    and len: "1 < length word" "length word \<le> L" "e = L - length word"
    and inv: "expanded_below m L (length word) (set S)"
  shows "edits_grows word S (edits_step m word e i S)
         \<and> expanded_below m L (length word) (set (edits_step m word e i S))
         \<and> delete_at word i \<in> set (edits_step m word e i S)"
proof -
  let ?del = "delete_at word i"
  let ?S' = "S @ [?del]"
  have dlen: "Suc (length ?del) = length word"
    using i by (simp add: delete_at_def)
  have dne: "?del \<noteq> []"
    using dlen len(1) by auto
  show ?thesis
  proof (cases "?del \<in> set S")
    case True
    then have "edits_step m word e i S = S"
      by (simp add: edits_step_def)
    with True inv show ?thesis
      by (simp add: edits_grows_refl)
  next
    case False
    show ?thesis
    proof (cases "Suc e < m")
      case True
      let ?S1 = "edits m ?del (Suc e) ?S'"
      have eq: "edits_step m word e i S = ?S1"
        using False True by (simp add: edits_step_def)
      have post: "edits_post m L ?del ?S' ?S1"
        using rec True False by simp
      then have grows: "edits_grows ?del ?S' ?S1"
        and exp: "expanded_below m L (length ?del) (set ?S1)"
        and dels: "1 < length ?del \<longrightarrow> single_deletes ?del \<subseteq> set ?S1"
        by (simp_all add: edits_post_def)
      have sub: "set ?S' \<subseteq> set ?S1"
        using grows by (simp add: edits_grows_def)
      have "single_deletes x \<subseteq> set ?S1"
        if x: "x \<in> set ?S1" "length x < length word" "1 < length x" "L - length x < m" for x
      proof (cases "length x < length ?del")
        case True
        with exp x show ?thesis
          unfolding expanded_below_def by blast
      next
        case False
        then have lx: "length x = length ?del"
          using x(2) dlen by linarith
        show ?thesis
        proof (cases "x = ?del")
          case True
          with dels x(3) show ?thesis by simp
        next
          case xd: False
          have "x \<in> set S"
          proof (rule ccontr)
            assume "x \<notin> set S"
            with x(1) xd have "x \<in> set ?S1 - set ?S'" by simp
            with grows have "length x < length ?del"
              unfolding edits_grows_def by blast
            with lx show False by simp
          qed
          with inv x have "single_deletes x \<subseteq> set S"
            unfolding expanded_below_def by blast
          with sub show ?thesis by auto
        qed
      qed
      then have "expanded_below m L (length word) (set ?S1)"
        unfolding expanded_below_def by blast
      moreover have "edits_grows word S ?S1"
        using dlen dne grows by (rule edits_grows_step)
      moreover have "?del \<in> set ?S1"
        using sub by simp
      ultimately show ?thesis
        by (simp add: eq)
    next
      case no_rec: False
      have eq: "edits_step m word e i S = ?S'"
        using False no_rec by (simp add: edits_step_def)
      have depth: "L - length ?del = Suc e"
        using dlen len by linarith
      have "single_deletes x \<subseteq> set ?S'"
        if x: "x \<in> set ?S'" "length x < length word" "1 < length x" "L - length x < m" for x
      proof (cases "x = ?del")
        case True
        with depth no_rec x(4) show ?thesis by simp
      next
        case False
        with x(1) have "x \<in> set S" by simp
        with inv x have "single_deletes x \<subseteq> set S"
          unfolding expanded_below_def by blast
        then show ?thesis by auto
      qed
      then have "expanded_below m L (length word) (set ?S')"
        unfolding expanded_below_def by blast
      moreover have "edits_grows word S ?S'"
        using dlen dne edits_grows_refl by (rule edits_grows_step)
      ultimately show ?thesis
        by (simp add: eq)
    qed
  qed
qed

lemma edits_loop:
  assumes rec: "\<And>i S. i \<in> set is \<Longrightarrow> Suc e < m \<Longrightarrow> delete_at word i \<notin> set S
                  \<Longrightarrow> expanded_below m L (length (delete_at word i)) (set (S @ [delete_at word i]))
                  \<Longrightarrow> edits_post m L (delete_at word i) (S @ [delete_at word i])
                        (edits m (delete_at word i) (Suc e) (S @ [delete_at word i]))"
    and range: "\<And>i. i \<in> set is \<Longrightarrow> i < length word"
    and len: "1 < length word" "length word \<le> L" "e = L - length word"
    and inv: "expanded_below m L (length word) (set S)"
  shows "edits_grows word S (fold (edits_step m word e) is S)
         \<and> expanded_below m L (length word) (set (fold (edits_step m word e) is S))
         \<and> (\<forall>i \<in> set is. delete_at word i \<in> set (fold (edits_step m word e) is S))"
  using rec range inv
proof (induction "is" arbitrary: S)
  case Nil
  then show ?case by (simp add: edits_grows_refl)
next
  case (Cons i "is")
  let ?S1 = "edits_step m word e i S"
  have i: "i < length word"
    using Cons.prems(2) by simp
  have below: "expanded_below m L (length (delete_at word i)) (set (S @ [delete_at word i]))"
  proof -
    have "Suc (length (delete_at word i)) = length word"
      using i by (simp add: delete_at_def)
    then have "length x < length (delete_at word i) \<Longrightarrow> x \<noteq> delete_at word i \<and> length x < length word" for x
      by auto
    then show ?thesis
      using Cons.prems(3) unfolding expanded_below_def by auto
  qed
  have step: "edits_grows word S ?S1 \<and> expanded_below m L (length word) (set ?S1)
              \<and> delete_at word i \<in> set ?S1"
    using Cons.prems(1) [of i S] below i len Cons.prems(3)
    by (intro edits_step_post) simp_all
  have IH: "edits_grows word ?S1 (fold (edits_step m word e) is ?S1)
            \<and> expanded_below m L (length word) (set (fold (edits_step m word e) is ?S1))
            \<and> (\<forall>i \<in> set is. delete_at word i \<in> set (fold (edits_step m word e) is ?S1))"
    using Cons.prems(1,2) step by (intro Cons.IH) simp_all
  have "edits_grows word S (fold (edits_step m word e) is ?S1)"
    using step IH by (blast intro: edits_grows_trans)
  moreover have "delete_at word i \<in> set (fold (edits_step m word e) is ?S1)"
    using step IH unfolding edits_grows_def by blast
  ultimately show ?case
    using IH by simp
qed

lemma edits_post:
  "length word \<le> L \<Longrightarrow> e = L - length word \<Longrightarrow> expanded_below m L (length word) (set S)
     \<Longrightarrow> edits_post m L word S (edits m word e S)"
proof (induction m word e S rule: edits.induct)
  case (1 m word e S)
  show ?case
  proof (cases "1 < length word")
    case False
    then have "edits m word e S = S"
      by (simp add: edits_unfold)
    with False "1.prems"(3) show ?thesis
      by (simp add: edits_post_def edits_grows_refl)
  next
    case True
    have rec: "edits_post m L (delete_at word i) (S' @ [delete_at word i])
                 (edits m (delete_at word i) (Suc e) (S' @ [delete_at word i]))"
      if "i \<in> set [0..<length word]" "Suc e < m" "delete_at word i \<notin> set S'"
         "expanded_below m L (length (delete_at word i)) (set (S' @ [delete_at word i]))"
      for i S'
    proof -
      have "Suc (length (delete_at word i)) = length word"
        using that(1) by (simp add: delete_at_def)
      then have "length (delete_at word i) \<le> L" "Suc e = L - length (delete_at word i)"
        using "1.prems"(1,2) by linarith+
      then show ?thesis
        using "1.IH" [OF refl True that(1) refl that(3) refl] that(2,4)
        by simp
    qed
    have loop: "edits_grows word S (fold (edits_step m word e) [0..<length word] S)
         \<and> expanded_below m L (length word) (set (fold (edits_step m word e) [0..<length word] S))
         \<and> (\<forall>i \<in> set [0..<length word]. delete_at word i \<in> set (fold (edits_step m word e) [0..<length word] S))"
      using rec True "1.prems" by (intro edits_loop) simp_all
    have eq: "edits m word e S = fold (edits_step m word e) [0..<length word] S"
      using True by (simp add: edits_unfold)
    have "single_deletes word \<subseteq> set (fold (edits_step m word e) [0..<length word] S)"
      using loop unfolding single_deletes_def by auto
    with loop show ?thesis
      unfolding edits_post_def eq by simp
  qed
qed

text \<open>What \<open>editsPrefix\<close> returns, in terms of the prefix it works on.\<close>

definition key_prefix :: "SymSpell \<Rightarrow> string \<Rightarrow> string" where
  "key_prefix this key = take (prefixLength this) key"

text \<open>The set \<open>editsPrefix\<close> starts \<open>edits\<close> with.\<close>

definition edits_seed :: "SymSpell \<Rightarrow> string \<Rightarrow> string list" where
  "edits_seed this key =
     (if length key \<le> maxDictionaryEditDistance this
      then (if key_prefix this key = [] then [[]] else [[], key_prefix this key])
      else [key_prefix this key])"

lemma editsPrefix_eq:
  "editsPrefix this key
     = edits (maxDictionaryEditDistance this) (key_prefix this key) 0 (edits_seed this key)"
  by (simp add: editsPrefix_def key_prefix_def edits_seed_def Let_def)

lemma set_edits_seed:
  "set (edits_seed this key)
     = (if length key \<le> maxDictionaryEditDistance this then {[], key_prefix this key}
        else {key_prefix this key})"
  by (simp add: edits_seed_def)

lemma editsPrefix_config:
  "maxDictionaryEditDistance a = maxDictionaryEditDistance b \<Longrightarrow> prefixLength a = prefixLength b
     \<Longrightarrow> editsPrefix a key = editsPrefix b key"
  by (simp add: editsPrefix_def)

lemma editsPrefix_post:
  "edits_post (maxDictionaryEditDistance this) (length (key_prefix this key)) (key_prefix this key)
     (edits_seed this key) (editsPrefix this key)"
proof -
  have "\<not> (length x < length (key_prefix this key) \<and> 1 < length x)"
    if "x \<in> set (edits_seed this key)" for x
    using that by (auto simp: set_edits_seed split: if_splits)
  then have "expanded_below (maxDictionaryEditDistance this) (length (key_prefix this key))
               (length (key_prefix this key)) (set (edits_seed this key))"
    unfolding expanded_below_def by blast
  then show ?thesis
    unfolding editsPrefix_eq by (intro edits_post) simp_all
qed

lemma editsPrefix_seed: "set (edits_seed this key) \<subseteq> set (editsPrefix this key)"
  using editsPrefix_post [of this key] by (simp add: edits_post_def edits_grows_def)

lemma editsPrefix_prefix: "key_prefix this key \<in> set (editsPrefix this key)"
proof -
  have "key_prefix this key \<in> set (edits_seed this key)"
    by (simp add: set_edits_seed)
  then show ?thesis
    using editsPrefix_seed by blast
qed

lemma editsPrefix_empty:
  "[] \<in> set (editsPrefix this key)
     \<longleftrightarrow> length key \<le> maxDictionaryEditDistance this \<or> key_prefix this key = []"
proof -
  have new: "\<forall>x \<in> set (editsPrefix this key) - set (edits_seed this key). x \<noteq> []"
    using editsPrefix_post [of this key] by (simp add: edits_post_def edits_grows_def)
  have "[] \<in> set (editsPrefix this key) \<longleftrightarrow> [] \<in> set (edits_seed this key)"
    using new editsPrefix_seed [of this key] by blast
  also have "\<dots> \<longleftrightarrow> length key \<le> maxDictionaryEditDistance this \<or> key_prefix this key = []"
    by (auto simp: set_edits_seed)
  finally show ?thesis .
qed

lemma editsPrefix_single_deletes:
  "1 < length (key_prefix this key) \<Longrightarrow> single_deletes (key_prefix this key) \<subseteq> set (editsPrefix this key)"
  using editsPrefix_post [of this key] by (simp add: edits_post_def)

lemma length_single_delete: "d \<in> single_deletes word \<Longrightarrow> Suc (length d) = length word"
  by (auto simp: single_deletes_def delete_at_def)

text \<open>A proper subsequence is a single delete of a subsequence that is one longer.\<close>

lemma single_deletes_Cons0: "d \<in> single_deletes (b # d)"
proof -
  have "delete_at (b # d) 0 \<in> delete_at (b # d) ` {..<length (b # d)}"
    by (rule imageI) simp
  then show ?thesis
    by (simp add: single_deletes_def delete_at_def)
qed

lemma single_deletes_Cons: "d \<in> single_deletes x \<Longrightarrow> b # d \<in> single_deletes (b # x)"
proof -
  assume "d \<in> single_deletes x"
  then obtain i where i: "i < length x" "d = delete_at x i"
    by (auto simp: single_deletes_def)
  have "delete_at (b # x) (Suc i) \<in> delete_at (b # x) ` {..<length (b # x)}"
    using i(1) by (intro imageI) simp
  then show ?thesis
    using i(2) by (simp add: single_deletes_def delete_at_def)
qed

lemma subseq_single_delete:
  "subseq d p \<Longrightarrow> length d < length p
     \<Longrightarrow> \<exists>x. subseq x p \<and> d \<in> single_deletes x"
proof (induction p arbitrary: d)
  case Nil
  then show ?case by simp
next
  case (Cons b p)
  show ?case
  proof (cases "subseq d p")
    case True
    then have "subseq (b # d) (b # p)"
      by simp
    then show ?thesis
      using single_deletes_Cons0 by blast
  next
    case False
    then obtain a d' where d: "d = a # d'"
      by (cases d) auto
    have "a = b"
    proof (rule ccontr)
      assume "a \<noteq> b"
      then have "subseq d p"
        using Cons.prems(1) by (simp add: d)
      with False show False by simp
    qed
    then have sub: "subseq d' p"
      using Cons.prems(1) by (simp add: d)
    have "length d' < length p"
      using Cons.prems(2) by (simp add: d)
    then obtain x where x: "subseq x p" "d' \<in> single_deletes x"
      using Cons.IH sub by blast
    have "subseq (b # x) (b # p)"
      using x(1) by simp
    moreover have "d \<in> single_deletes (b # x)"
      using x(2) by (simp add: d \<open>a = b\<close> single_deletes_Cons)
    ultimately show ?thesis by blast
  qed
qed

text \<open>
  Every non-empty string that one gets from the prefix by deleting at most
  \<open>maxDictionaryEditDistance\<close> characters is among the edits.
\<close>

lemma editsPrefix_subseq:
  assumes "subseq d (key_prefix this key)" and "d \<noteq> []"
    and "length (key_prefix this key) \<le> length d + maxDictionaryEditDistance this"
  shows "d \<in> set (editsPrefix this key)"
proof -
  let ?p = "key_prefix this key"
  let ?m = "maxDictionaryEditDistance this"
  let ?E = "set (editsPrefix this key)"
  have post: "expanded_below ?m (length ?p) (length ?p) ?E"
    and dels: "1 < length ?p \<longrightarrow> single_deletes ?p \<subseteq> ?E"
    using editsPrefix_post [of this key] by (simp_all add: edits_post_def)
  have "subseq d ?p \<Longrightarrow> d \<noteq> [] \<Longrightarrow> length ?p = length d + k \<Longrightarrow> k \<le> ?m \<Longrightarrow> d \<in> ?E" for k d
  proof (induction k arbitrary: d)
    case 0
    then have "d = ?p"
      by (simp add: subseq_same_length)
    then show ?case
      by (simp add: editsPrefix_prefix)
  next
    case (Suc k)
    then obtain x where x: "subseq x ?p" "d \<in> single_deletes x"
      using subseq_single_delete [of d ?p] by auto
    have lx: "length x = Suc (length d)"
      using length_single_delete [OF x(2)] by simp
    show ?case
    proof (cases k)
      case 0
      with Suc.prems lx x(1) have "x = ?p"
        by (simp add: subseq_same_length)
      moreover have "1 < length x"
        using lx Suc.prems(2) by (cases d) simp_all
      ultimately show ?thesis
        using dels x(2) by auto
    next
      case (Suc k')
      have "x \<in> ?E"
        using x(1) lx Suc.prems by (intro Suc.IH) auto
      moreover have "length x < length ?p" "1 < length x" "length ?p - length x < ?m"
        using lx Suc.prems Suc by (cases d; simp)+
      ultimately have "single_deletes x \<subseteq> ?E"
        using post unfolding expanded_below_def by blast
      with x(2) show ?thesis by auto
    qed
  qed
  moreover have "length d \<le> length ?p"
    using assms(1) by (rule list_emb_length)
  then obtain k where k: "length ?p = length d + k"
    using le_Suc_ex by blast
  moreover have "k \<le> ?m"
    using k assms(3) by simp
  ultimately show ?thesis
    using assms(1,2) by blast
qed

section \<open>The buckets of the deletes map\<close>

definition bucket_of :: "(string \<rightharpoonup> string list) \<Rightarrow> string \<Rightarrow> string set" where
  "bucket_of d del = (case d del of None \<Rightarrow> {} | Some bucket \<Rightarrow> set bucket)"

lemma bucket_of_push_delete:
  "bucket_of (push_delete key del d) x = (if x = del then insert key (bucket_of d x) else bucket_of d x)"
  by (auto simp: bucket_of_def push_delete_def split: option.splits)

lemma bucket_of_fold_push_delete:
  "bucket_of (fold (push_delete key) dels d) x
     = (if x \<in> set dels then insert key (bucket_of d x) else bucket_of d x)"
  by (induction dels arbitrary: d) (auto simp: bucket_of_push_delete)

lemma dom_fold_push_delete:
  "dom (fold (push_delete key) dels d) = dom d \<union> set dels"
  by (induction dels arbitrary: d) (auto simp: push_delete_def)

text \<open>The four ways \<open>createDictionaryEntry\<close> can end.\<close>

lemma createDictionaryEntry_cases:
  obtains (unchanged) "createDictionaryEntry this key count = (False, this)"
  | (below) c where
      "createDictionaryEntry this key count
         = (False, this\<lparr>belowThresholdWords := (belowThresholdWords this)(key \<mapsto> c)\<rparr>)"
  | (update) c where "words this key \<noteq> None"
      "createDictionaryEntry this key count = (False, this\<lparr>words := (words this)(key \<mapsto> c)\<rparr>)"
  | (promote) c b where
      "createDictionaryEntry this key count = add_word (this\<lparr>belowThresholdWords := b\<rparr>) key c"
proof (cases "count \<le> 0 \<and> countThreshold this > 0")
  case True
  then have "createDictionaryEntry this key count = (False, this)"
    by (simp add: createDictionaryEntry_def)
  then show ?thesis by (rule unchanged)
next
  case c1: False
  let ?cnt = "if count \<le> 0 then 0 else count"
  show ?thesis
  proof (cases "countThreshold this > 1 \<and> belowThresholdWords this key \<noteq> None")
    case c2: True
    let ?cnt' = "if MAX_SAFE_INTEGER - the (belowThresholdWords this key) > ?cnt
                 then the (belowThresholdWords this key) + ?cnt else MAX_SAFE_INTEGER"
    show ?thesis
    proof (cases "?cnt' \<ge> countThreshold this")
      case c3: True
      have "createDictionaryEntry this key count
              = add_word (this\<lparr>belowThresholdWords := (belowThresholdWords this)(key := None)\<rparr>) key ?cnt'"
        by (simp only: createDictionaryEntry_def Let_def if_not_P [OF c1] if_P [OF c2] if_P [OF c3])
      then show ?thesis by (rule promote)
    next
      case c3: False
      have "createDictionaryEntry this key count
              = (False, this\<lparr>belowThresholdWords := (belowThresholdWords this)(key \<mapsto> ?cnt')\<rparr>)"
        by (simp only: createDictionaryEntry_def Let_def if_not_P [OF c1] if_P [OF c2] if_not_P [OF c3])
      then show ?thesis by (rule below)
    qed
  next
    case c2: False
    show ?thesis
    proof (cases "words this key \<noteq> None")
      case c3: True
      let ?cnt' = "if MAX_SAFE_INTEGER - the (words this key) > ?cnt
                   then the (words this key) + ?cnt else MAX_SAFE_INTEGER"
      have "createDictionaryEntry this key count = (False, this\<lparr>words := (words this)(key \<mapsto> ?cnt')\<rparr>)"
        by (simp only: createDictionaryEntry_def Let_def if_not_P [OF c1] if_not_P [OF c2] if_P [OF c3])
      with c3 show ?thesis by (rule update)
    next
      case c3: False
      show ?thesis
      proof (cases "?cnt < countThreshold this")
        case c4: True
        have "createDictionaryEntry this key count
                = (False, this\<lparr>belowThresholdWords := (belowThresholdWords this)(key \<mapsto> ?cnt)\<rparr>)"
          by (simp only: createDictionaryEntry_def Let_def if_not_P [OF c1] if_not_P [OF c2]
                if_not_P [OF c3] if_P [OF c4])
        then show ?thesis by (rule below)
      next
        case c4: False
        have "createDictionaryEntry this key count = add_word this key ?cnt"
          by (simp only: createDictionaryEntry_def Let_def if_not_P [OF c1] if_not_P [OF c2]
                if_not_P [OF c3] if_not_P [OF c4])
        then have "createDictionaryEntry this key count
                     = add_word (this\<lparr>belowThresholdWords := belowThresholdWords this\<rparr>) key ?cnt"
          by simp
        then show ?thesis by (rule promote)
      qed
    qed
  qed
qed

lemma add_word_deletes:
  "deletes (snd (add_word this key c)) = fold (push_delete key) (editsPrefix this key) (deletes this)"
proof -
  have "editsPrefix (this\<lparr>words := (words this)(key \<mapsto> c), maxDictionaryWordLength := length key\<rparr>) key
          = editsPrefix this key"
    and "editsPrefix (this\<lparr>words := (words this)(key \<mapsto> c)\<rparr>) key = editsPrefix this key"
    by (simp_all add: editsPrefix_def)
  then show ?thesis
    by (simp add: add_word_def Let_def)
qed

lemma createDictionaryEntry_promoted:
  assumes "fst (createDictionaryEntry this key count)"
  shows "deletes (snd (createDictionaryEntry this key count))
           = fold (push_delete key) (editsPrefix this key) (deletes this)"
    and "dom (words (snd (createDictionaryEntry this key count))) = insert key (dom (words this))"
proof -
  obtain c b where eq: "createDictionaryEntry this key count = add_word (this\<lparr>belowThresholdWords := b\<rparr>) key c"
    using assms by (cases rule: createDictionaryEntry_cases [of this key count]) simp_all
  have "editsPrefix (this\<lparr>belowThresholdWords := b\<rparr>) key = editsPrefix this key"
    by (simp add: editsPrefix_def)
  then show "deletes (snd (createDictionaryEntry this key count))
           = fold (push_delete key) (editsPrefix this key) (deletes this)"
    by (simp add: eq add_word_deletes)
  show "dom (words (snd (createDictionaryEntry this key count))) = insert key (dom (words this))"
    by (simp add: eq add_word_words)
qed

lemma createDictionaryEntry_not_promoted:
  assumes "\<not> fst (createDictionaryEntry this key count)"
  shows "deletes (snd (createDictionaryEntry this key count)) = deletes this"
    and "dom (words (snd (createDictionaryEntry this key count))) = dom (words this)"
  using assms
  by (cases rule: createDictionaryEntry_cases [of this key count]; auto simp: add_word_fields)+

lemma in_bucket_iff:
  "(\<exists>bucket. d del = Some bucket \<and> t \<in> set bucket) \<longleftrightarrow> t \<in> bucket_of d del"
  by (auto simp: bucket_of_def split: option.splits)

text \<open>
  The invariant of the index: a term is in the bucket of a string exactly when the term
  is in the words table and the string is one of the edits of the term.
\<close>

definition deletes_invariant :: "SymSpell \<Rightarrow> bool" where
  "deletes_invariant s =
     (\<forall>t del. t \<in> bucket_of (deletes s) del
               \<longleftrightarrow> t \<in> dom (words s) \<and> del \<in> set (editsPrefix s t))"

lemma deletes_invariant_new: "deletes_invariant (new_SymSpell m p threshold)"
  by (simp add: deletes_invariant_def new_SymSpell_def bucket_of_def)

lemma createDictionaryEntry_editsPrefix:
  "editsPrefix (snd (createDictionaryEntry this key count)) t = editsPrefix this t"
  by (rule editsPrefix_config) (simp_all add: createDictionaryEntry_config)

lemma deletes_invariant_step:
  assumes "deletes_invariant this"
  shows "deletes_invariant (snd (createDictionaryEntry this key count))"
proof (cases "fst (createDictionaryEntry this key count)")
  case False
  then show ?thesis
    using assms createDictionaryEntry_not_promoted [of this key count]
    by (simp add: deletes_invariant_def createDictionaryEntry_editsPrefix)
next
  case True
  let ?s = "snd (createDictionaryEntry this key count)"
  have b: "bucket_of (deletes ?s) del
             = (if del \<in> set (editsPrefix this key) then insert key (bucket_of (deletes this) del)
                else bucket_of (deletes this) del)" for del
    using createDictionaryEntry_promoted(1) [OF True] by (simp add: bucket_of_fold_push_delete)
  have w: "dom (words ?s) = insert key (dom (words this))"
    using True by (rule createDictionaryEntry_promoted(2))
  have "t \<in> bucket_of (deletes ?s) del \<longleftrightarrow> t \<in> dom (words ?s) \<and> del \<in> set (editsPrefix this t)"
    for t del
  proof (cases "t = key")
    case True
    then show ?thesis
      using assms unfolding b w deletes_invariant_def by auto
  next
    case False
    then show ?thesis
      using assms unfolding b w deletes_invariant_def by auto
  qed
  then show ?thesis
    by (simp add: deletes_invariant_def createDictionaryEntry_editsPrefix)
qed

lemma deletes_invariant_load:
  "deletes_invariant this \<Longrightarrow> deletes_invariant (load_entries this entries)"
proof (induction entries arbitrary: this)
  case Nil
  then show ?case by (simp add: load_entries_Nil)
next
  case (Cons e entries)
  obtain key count where e: "e = (key, count)" by (cases e)
  show ?case
    unfolding e load_entries_Cons
    by (rule Cons.IH) (rule deletes_invariant_step [OF Cons.prems])
qed

text \<open>
  Claim C2, as stated, fails for the empty string, in two ways. With
  \<open>maxDictionaryEditDistance\<close> 1 and \<open>prefixLength\<close> 1, the term \<open>ab\<close> has the prefix
  \<open>a\<close>; the empty string is that prefix with one character deleted, and it is not a key
  of the deletes map, since \<open>edits\<close> deletes nothing from a word of one character and
  \<open>editsPrefix\<close> adds the empty string only for a term no longer than
  \<open>maxDictionaryEditDistance\<close>. With \<open>prefixLength\<close> 0, the prefix of \<open>ab\<close> is the empty
  string itself, which \<open>editsPrefix\<close> always adds: the bucket of the empty string holds
  \<open>ab\<close> although \<open>ab\<close> is longer than \<open>maxDictionaryEditDistance\<close>.
\<close>

theorem deletes_variants_counterexample:
  "words (load_entries (new_SymSpell 1 1 1) [(''ab'', 1)]) ''ab'' = Some 1
   \<and> subseq [] (take 1 ''ab'')
   \<and> length (take 1 ''ab'') \<le> length ([] :: string) + 1
   \<and> deletes (load_entries (new_SymSpell 1 1 1) [(''ab'', 1)]) [] = None
   \<and> words (load_entries (new_SymSpell 1 0 1) [(''ab'', 1)]) ''ab'' = Some 1
   \<and> deletes (load_entries (new_SymSpell 1 0 1) [(''ab'', 1)]) [] = Some [''ab'']
   \<and> \<not> length ''ab'' \<le> (1 :: nat)"
  by code_simp

text \<open>
  Claim C2, amended. On every index, whatever its \<open>maxDictionaryEditDistance\<close>,
  \<open>prefixLength\<close> and \<open>countThreshold\<close>, after any sequence of \<open>createDictionaryEntry\<close>
  calls, for every term \<open>t\<close> of the words table: every non-empty string obtained by
  deleting between 0 and \<open>maxDictionaryEditDistance\<close> characters from the prefix of \<open>t\<close>
  is a key of the deletes map whose bucket contains \<open>t\<close>; the bucket of the empty string
  contains \<open>t\<close> if and only if the length of \<open>t\<close> is at most
  \<open>maxDictionaryEditDistance\<close> or \<open>prefixLength\<close> is 0; and the bucket of the prefix itself
  contains \<open>t\<close>.
\<close>

theorem deletes_cover_prefix_variants:
  assumes "words (load_entries (new_SymSpell m p threshold) entries) t \<noteq> None"
  shows "(\<forall>d. d \<noteq> [] \<and> subseq d (take p t) \<and> length (take p t) \<le> length d + m
            \<longrightarrow> (\<exists>bucket. deletes (load_entries (new_SymSpell m p threshold) entries) d = Some bucket
                           \<and> t \<in> set bucket))
       \<and> ((\<exists>bucket. deletes (load_entries (new_SymSpell m p threshold) entries) [] = Some bucket
                     \<and> t \<in> set bucket)
            \<longleftrightarrow> length t \<le> m \<or> p = 0)
       \<and> (\<exists>bucket. deletes (load_entries (new_SymSpell m p threshold) entries) (take p t) = Some bucket
                    \<and> t \<in> set bucket)"
proof -
  let ?s = "load_entries (new_SymSpell m p threshold) entries"
  have cfg: "maxDictionaryEditDistance ?s = m" "prefixLength ?s = p"
    by (simp_all add: load_entries_config new_SymSpell_def)
  then have pre: "key_prefix ?s t = take p t"
    by (simp add: key_prefix_def)
  have "deletes_invariant ?s"
    by (intro deletes_invariant_load deletes_invariant_new)
  then have inv: "t \<in> bucket_of (deletes ?s) del \<longleftrightarrow> del \<in> set (editsPrefix ?s t)" for del
    using assms by (auto simp: deletes_invariant_def)
  have "take p t = [] \<longleftrightarrow> t = [] \<or> p = 0"
    by auto
  then have empty: "[] \<in> set (editsPrefix ?s t) \<longleftrightarrow> length t \<le> m \<or> p = 0"
    unfolding editsPrefix_empty cfg pre by auto
  have "d \<in> set (editsPrefix ?s t)"
    if "d \<noteq> []" "subseq d (take p t)" "length (take p t) \<le> length d + m" for d
    using that by (intro editsPrefix_subseq) (simp_all add: cfg pre)
  moreover have "take p t \<in> set (editsPrefix ?s t)"
    using editsPrefix_prefix [of ?s t] by (simp add: pre)
  ultimately show ?thesis
    unfolding in_bucket_iff inv using empty by blast
qed

theorem deletes_cover_prefix_variants_witness:
  "words (load_entries (new_SymSpell 2 2 1) [(''abc'', 1)]) ''abc'' \<noteq> None
   \<and> ''a'' \<noteq> [] \<and> subseq ''a'' (take 2 ''abc'') \<and> length (take 2 ''abc'') \<le> length ''a'' + 2
   \<and> (\<exists>bucket. deletes (load_entries (new_SymSpell 2 2 1) [(''abc'', 1)]) ''a''
                  = Some bucket \<and> ''abc'' \<in> set bucket)"
proof -
  have w: "words (load_entries (new_SymSpell 2 2 1) [(''abc'', 1)]) ''abc'' \<noteq> None"
    by code_simp
  have s: "''a'' \<noteq> [] \<and> subseq ''a'' (take 2 ''abc'') \<and> length (take 2 ''abc'') \<le> length ''a'' + 2"
    by simp
  show ?thesis
    using deletes_cover_prefix_variants [of 2 2 1 "[(''abc'', 1)]" "''abc''", OF w] w s
    by simp
qed

text \<open>
  Claim C10, as stated, fails for a prefix of one character: with
  \<open>maxDictionaryEditDistance\<close> 0 and \<open>prefixLength\<close> 1 the term \<open>ab\<close> is promoted, and
  the single delete of its prefix \<open>a\<close>, the empty string, is not put into the deletes
  map.
\<close>

theorem zero_distance_deletes_counterexample:
  "fst (createDictionaryEntry (new_SymSpell 0 1 1) ''ab'' 1)
   \<and> 2 \<le> length ''ab''
   \<and> delete_at (take 1 ''ab'') 0 = []
   \<and> deletes (snd (createDictionaryEntry (new_SymSpell 0 1 1) ''ab'' 1)) [] = None"
  by code_simp

text \<open>
  Claim C10, amended. On an index with \<open>maxDictionaryEditDistance\<close> 0, when
  \<open>createDictionaryEntry\<close> promotes a term \<open>t\<close> whose prefix has at least two
  characters, every string obtained from the prefix by deleting one character is a key
  of the deletes map with \<open>t\<close> in its bucket: a variant at delete distance
  \<open>maxDictionaryEditDistance + 1\<close>.
\<close>

theorem zero_distance_single_deletes:
  assumes "maxDictionaryEditDistance this = 0" and "fst (createDictionaryEntry this t count)"
    and "2 \<le> length (take (prefixLength this) t)"
    and "d \<in> single_deletes (take (prefixLength this) t)"
  shows "(\<exists>bucket. deletes (snd (createDictionaryEntry this t count)) d = Some bucket
                   \<and> t \<in> set bucket)
         \<and> length d + (maxDictionaryEditDistance this + 1) = length (take (prefixLength this) t)"
proof -
  have "single_deletes (key_prefix this t) \<subseteq> set (editsPrefix this t)"
    using assms(3) by (intro editsPrefix_single_deletes) (simp add: key_prefix_def)
  then have "d \<in> set (editsPrefix this t)"
    using assms(4) by (auto simp: key_prefix_def)
  then have "t \<in> bucket_of (deletes (snd (createDictionaryEntry this t count))) d"
    using createDictionaryEntry_promoted(1) [OF assms(2)] by (simp add: bucket_of_fold_push_delete)
  then show ?thesis
    using length_single_delete [OF assms(4)] assms(1) by (simp add: in_bucket_iff)
qed

theorem zero_distance_single_deletes_witness:
  "fst (createDictionaryEntry (new_SymSpell 0 7 1) ''ab'' 1)
   \<and> ''b'' \<in> single_deletes (take 7 ''ab'')
   \<and> (\<exists>bucket. deletes (snd (createDictionaryEntry (new_SymSpell 0 7 1) ''ab'' 1)) ''b'' = Some bucket
                  \<and> ''ab'' \<in> set bucket)"
proof -
  have p: "fst (createDictionaryEntry (new_SymSpell 0 7 1) ''ab'' 1)"
    by code_simp
  have "delete_at ''ab'' 0 \<in> delete_at ''ab'' ` {..<length ''ab''}"
    by (rule imageI) simp
  then have d: "''b'' \<in> single_deletes (take (prefixLength (new_SymSpell 0 7 1)) ''ab'')"
    by (simp add: single_deletes_def delete_at_def new_SymSpell_def)
  have m: "maxDictionaryEditDistance (new_SymSpell 0 7 1) = 0"
    by (simp add: new_SymSpell_def)
  have l: "2 \<le> length (take (prefixLength (new_SymSpell 0 7 1)) ''ab'')"
    by (simp add: new_SymSpell_def)
  show ?thesis
    using zero_distance_single_deletes [OF m p l d] p d by (simp add: new_SymSpell_def)
qed

section \<open>Lookups on small dictionaries\<close>

text \<open>
  The order the spec asks of a suggestion list: by distance ascending, and by count
  descending among equal distances.
\<close>

definition suggestion_before :: "SuggestItem \<Rightarrow> SuggestItem \<Rightarrow> bool" where
  "suggestion_before a b =
     (si_distance a < si_distance b
      \<or> (si_distance a = si_distance b \<and> js_le (si_count b) (si_count a)))"

definition suggestions_sorted :: "SuggestItem list \<Rightarrow> bool" where
  "suggestions_sorted xs = sorted_wrt suggestion_before xs"

text \<open>
  The scenario of claim C4, on the index of the repository's test (edit distance 1,
  prefix length 3) and on an index with the default settings: \<open>pipe\<close> with count 5 and
  \<open>pips\<close> with count 10; \<open>lookup("pip", ALL, 1)\<close> returns \<open>pips\<close> before \<open>pipe\<close>.
\<close>

lemma lookup_pip_all:
  "lookup h (load_entries (new_SymSpell 1 3 1) [(''pipe'', 5), (''pips'', 10)])
     ''pip'' ALL_V (Some 1) no_options
   = [\<lparr>si_term = ''pips'', si_distance = 1, si_count = Some 10\<rparr>,
      \<lparr>si_term = ''pipe'', si_distance = 1, si_count = Some 5\<rparr>]"
  "lookup h (load_entries (new_SymSpell 2 7 1) [(''pipe'', 5), (''pips'', 10)])
     ''pip'' ALL_V (Some 1) no_options
   = [\<lparr>si_term = ''pips'', si_distance = 1, si_count = Some 10\<rparr>,
      \<lparr>si_term = ''pipe'', si_distance = 1, si_count = Some 5\<rparr>]"
  by code_simp+

text \<open>
  Claim C4 at its failing input. The index has count threshold 0 and holds the term \<open>a\<close>
  with count 0. \<open>lookup("a", ALL, 0)\<close> with an \<open>ignoreToken\<close> that matches \<open>a\<close> returns
  the exact match with count 0 before the ignored token with count 1: the early exit for
  \<open>maxEditDistance = 0\<close> comes before the sort, and the list is not in the order of
  distance ascending, count descending.
\<close>

theorem lookup_unsorted_early_exit:
  "lookup h (load_entries (new_SymSpell 2 7 0) [(''a'', 0)]) ''a'' ALL_V (Some 0)
     \<lparr>includeUnknown = False, ignoreToken = Some ((=) ''a''), transferCasing = False\<rparr>
   = [\<lparr>si_term = ''a'', si_distance = 0, si_count = Some 0\<rparr>,
      \<lparr>si_term = ''a'', si_distance = 0, si_count = Some 1\<rparr>]
   \<and> \<not> suggestions_sorted
         (lookup h (load_entries (new_SymSpell 2 7 0) [(''a'', 0)]) ''a'' ALL_V (Some 0)
            \<lparr>includeUnknown = False, ignoreToken = Some ((=) ''a''), transferCasing = False\<rparr>)"
proof -
  have eq: "lookup h (load_entries (new_SymSpell 2 7 0) [(''a'', 0)]) ''a'' ALL_V (Some 0)
     \<lparr>includeUnknown = False, ignoreToken = Some ((=) ''a''), transferCasing = False\<rparr>
   = [\<lparr>si_term = ''a'', si_distance = 0, si_count = Some 0\<rparr>,
      \<lparr>si_term = ''a'', si_distance = 0, si_count = Some 1\<rparr>]"
    by code_simp
  show ?thesis
    unfolding eq by (simp add: suggestions_sorted_def suggestion_before_def)
qed

text \<open>
  Claim C5. On an index with the default settings that holds \<open>steam\<close> with count 1,
  \<open>steams\<close> with count 2 and \<open>steem\<close> with count 3, \<open>lookup("steems", v, 2)\<close> returns
  one suggestion for \<open>TOP\<close>, two for \<open>CLOSEST\<close> and three for \<open>ALL\<close>.
\<close>

theorem lookup_steems_verbosity:
  "length (lookup h (load_entries (new_SymSpell 2 7 1) [(''steam'', 1), (''steams'', 2), (''steem'', 3)])
             ''steems'' TOP (Some 2) no_options) = 1
   \<and> length (lookup h (load_entries (new_SymSpell 2 7 1) [(''steam'', 1), (''steams'', 2), (''steem'', 3)])
               ''steems'' CLOSEST (Some 2) no_options) = 2
   \<and> length (lookup h (load_entries (new_SymSpell 2 7 1) [(''steam'', 1), (''steams'', 2), (''steem'', 3)])
               ''steems'' ALL_V (Some 2) no_options) = 3"
proof -
  have "lookup h (load_entries (new_SymSpell 2 7 1) [(''steam'', 1), (''steams'', 2), (''steem'', 3)])
             ''steems'' TOP (Some 2) no_options
        = [\<lparr>si_term = ''steem'', si_distance = 1, si_count = Some 3\<rparr>]"
    by code_simp
  moreover
  have "lookup h (load_entries (new_SymSpell 2 7 1) [(''steam'', 1), (''steams'', 2), (''steem'', 3)])
             ''steems'' CLOSEST (Some 2) no_options
        = [\<lparr>si_term = ''steem'', si_distance = 1, si_count = Some 3\<rparr>,
           \<lparr>si_term = ''steams'', si_distance = 1, si_count = Some 2\<rparr>]"
    by code_simp
  moreover
  have "lookup h (load_entries (new_SymSpell 2 7 1) [(''steam'', 1), (''steams'', 2), (''steem'', 3)])
             ''steems'' ALL_V (Some 2) no_options
        = [\<lparr>si_term = ''steem'', si_distance = 1, si_count = Some 3\<rparr>,
           \<lparr>si_term = ''steams'', si_distance = 1, si_count = Some 2\<rparr>,
           \<lparr>si_term = ''steam'', si_distance = 2, si_count = Some 1\<rparr>]"
    by code_simp
  ultimately show ?thesis by simp
qed

text \<open>
  Claim C8 at its failing input. The index is built with \<open>maxDictionaryEditDistance\<close> 1;
  \<open>lookup\<close> with the larger \<open>maxEditDistance\<close> 2 is answered like any other query. The
  model of \<open>lookup\<close> has no error result because the source has no check and no
  \<open>throw\<close>.
\<close>

theorem lookup_beyond_dictionary_distance:
  "maxDictionaryEditDistance (load_entries (new_SymSpell 1 3 1) [(''pipe'', 5), (''pips'', 10)]) = 1
   \<and> lookup h (load_entries (new_SymSpell 1 3 1) [(''pipe'', 5), (''pips'', 10)])
        ''pipe'' TOP (Some 2) no_options
      = [\<lparr>si_term = ''pipe'', si_distance = 0, si_count = Some 5\<rparr>]
   \<and> lookup h (load_entries (new_SymSpell 1 3 1) [(''pipe'', 5), (''pips'', 10)])
        ''pxpx'' TOP (Some 2) no_options
      = [\<lparr>si_term = ''pips'', si_distance = 2, si_count = Some 10\<rparr>]"
proof -
  have "lookup h (load_entries (new_SymSpell 1 3 1) [(''pipe'', 5), (''pips'', 10)])
        ''pipe'' TOP (Some 2) no_options
      = [\<lparr>si_term = ''pipe'', si_distance = 0, si_count = Some 5\<rparr>]"
    by code_simp
  moreover
  have "lookup h (load_entries (new_SymSpell 1 3 1) [(''pipe'', 5), (''pips'', 10)])
        ''pxpx'' TOP (Some 2) no_options
      = [\<lparr>si_term = ''pips'', si_distance = 2, si_count = Some 10\<rparr>]"
    by code_simp
  ultimately show ?thesis
    by (simp add: load_entries_config new_SymSpell_def)
qed

section \<open>\<open>wordSegmentation\<close> of the empty string\<close>

text \<open>
  Claim C9. For the empty input \<open>wordSegmentation\<close> returns \<open>undefined\<close>, not a
  composition: \<open>arraySize\<close> is 0, no loop body runs, and the function reads
  \<open>compositions[circularIndex]\<close> with \<open>circularIndex\<close> still -1. (A negative
  \<open>maxSegmentationWordLength\<close> would make \<open>new Array\<close> throw instead.)
\<close>

theorem wordSegmentation_empty_input:
  assumes "\<And>m. ws_maxSegmentationWordLength opts = Some m \<Longrightarrow> 0 \<le> m"
  shows "wordSegmentation ops h this [] opts = Inr None"
proof -
  have "min (case ws_maxSegmentationWordLength opts of
               None \<Rightarrow> int (maxDictionaryWordLength this) | Some m \<Rightarrow> m) 0 = 0"
    using assms by (cases "ws_maxSegmentationWordLength opts") simp_all
  then show ?thesis
    by (simp add: wordSegmentation_def Let_def)
qed

theorem wordSegmentation_empty_input_witness:
  "wordSegmentation
     \<lparr>log10_count = (\<lambda>c. ()), log10_unknown = (\<lambda>n. ()), dbl_add = (\<lambda>x y. ()),
      dbl_lt = (\<lambda>x y. False), dbl_or_zero = (\<lambda>x. ())\<rparr>
     identity_helpers (load_entries (new_SymSpell 2 7 1) [(''the'', 5)]) []
     \<lparr>ws_maxEditDistance = None, ws_maxSegmentationWordLength = Some 4, ws_ignoreToken = None\<rparr>
   = Inr None"
  using wordSegmentation_empty_input
    [of "\<lparr>ws_maxEditDistance = None, ws_maxSegmentationWordLength = Some 4, ws_ignoreToken = None\<rparr>"]
  by simp

section \<open>Facts about the reference dynamic program\<close>

text \<open>The four candidates of a cell, and when the transposition applies.\<close>

definition transposed :: "'a list \<Rightarrow> 'a list \<Rightarrow> nat \<Rightarrow> nat \<Rightarrow> bool" where
  "transposed a b i j = (0 < i \<and> 0 < j \<and> a ! i = b ! (j - 1) \<and> a ! (i - 1) = b ! j)"

definition subst_cost :: "'a list \<Rightarrow> 'a list \<Rightarrow> nat \<Rightarrow> nat \<Rightarrow> nat" where
  "subst_cost a b i j = (if a ! i = b ! j then 0 else 1)"

lemma osa_Suc_Suc:
  "osa a b (Suc i) (Suc j) =
     (if transposed a b i j
      then min (min (min (osa a b i (Suc j) + 1) (osa a b (Suc i) j + 1))
                    (osa a b i j + subst_cost a b i j))
               (osa a b (i - 1) (j - 1) + 1)
      else min (min (osa a b i (Suc j) + 1) (osa a b (Suc i) j + 1))
               (osa a b i j + subst_cost a b i j))"
  by (simp add: transposed_def subst_cost_def Let_def)

declare osa.simps(3) [simp del]

lemma osa_right_zero [simp]: "osa a b i 0 = i"
  by (cases i) simp_all

lemma osa_Suc_Suc_le:
  "osa a b (Suc i) (Suc j) \<le> osa a b i (Suc j) + 1"
  "osa a b (Suc i) (Suc j) \<le> osa a b (Suc i) j + 1"
  "osa a b (Suc i) (Suc j) \<le> osa a b i j + subst_cost a b i j"
  by (simp_all add: osa_Suc_Suc min_le_iff_disj)

lemma osa_Suc_Suc_trans_le:
  "transposed a b i j \<Longrightarrow> osa a b (Suc i) (Suc j) \<le> osa a b (i - 1) (j - 1) + 1"
  by (simp add: osa_Suc_Suc min_le_iff_disj)

lemma subst_cost_le: "subst_cost a b i j \<le> 1"
  by (simp add: subst_cost_def)

lemma osa_Suc_Suc_diag: "osa a b (Suc i) (Suc j) \<le> osa a b i j + 1"
  using osa_Suc_Suc_le(3) [of a b i j] subst_cost_le [of a b i j] by linarith

lemma osa_Suc_left: "osa a b (Suc i) j \<le> osa a b i j + 1"
proof (cases j)
  case 0
  then show ?thesis by simp
next
  case (Suc j')
  then show ?thesis
    using osa_Suc_Suc_le(2) [of a b i j'] osa_Suc_Suc_le(1) [of a b i j'] by simp
qed

lemma osa_Suc_right: "osa a b i (Suc j) \<le> osa a b i j + 1"
proof (cases i)
  case 0
  then show ?thesis by simp
next
  case (Suc i')
  then show ?thesis
    using osa_Suc_Suc_le(2) [of a b i' j] by simp
qed

text \<open>The value of a cell is one of its candidates.\<close>

lemma osa_Suc_Suc_cases:
  obtains (delete) "osa a b (Suc i) (Suc j) = osa a b i (Suc j) + 1"
  | (insert) "osa a b (Suc i) (Suc j) = osa a b (Suc i) j + 1"
  | (substitute) "osa a b (Suc i) (Suc j) = osa a b i j + subst_cost a b i j"
  | (transpose) "transposed a b i j"
      "osa a b (Suc i) (Suc j) = osa a b (i - 1) (j - 1) + 1"
proof -
  let ?x1 = "osa a b i (Suc j) + 1" and ?x2 = "osa a b (Suc i) j + 1"
  let ?x3 = "osa a b i j + subst_cost a b i j" and ?x4 = "osa a b (i - 1) (j - 1) + 1"
  have m3: "min (min ?x1 ?x2) ?x3 = ?x1 \<or> min (min ?x1 ?x2) ?x3 = ?x2 \<or> min (min ?x1 ?x2) ?x3 = ?x3"
    by (simp add: min_def)
  show ?thesis
  proof (cases "transposed a b i j")
    case False
    then have "osa a b (Suc i) (Suc j) = min (min ?x1 ?x2) ?x3"
      by (simp add: osa_Suc_Suc)
    with m3 show ?thesis
      using delete insert substitute by metis
  next
    case True
    then have eq: "osa a b (Suc i) (Suc j) = min (min (min ?x1 ?x2) ?x3) ?x4"
      by (simp add: osa_Suc_Suc)
    have "min (min (min ?x1 ?x2) ?x3) ?x4 = min (min ?x1 ?x2) ?x3
          \<or> min (min (min ?x1 ?x2) ?x3) ?x4 = ?x4"
      by (simp add: min_def)
    then show ?thesis
    proof
      assume "min (min (min ?x1 ?x2) ?x3) ?x4 = min (min ?x1 ?x2) ?x3"
      with eq m3 show ?thesis
        using delete insert substitute by metis
    next
      assume "min (min (min ?x1 ?x2) ?x3) ?x4 = ?x4"
      with eq True show ?thesis
        using transpose by simp
    qed
  qed
qed

lemma transposedD: "transposed a b i j \<Longrightarrow> \<exists>i' j'. i = Suc i' \<and> j = Suc j'"
  by (cases i; cases j) (simp_all add: transposed_def)

lemma osa_le_right: "osa a b i j \<le> osa a b i (Suc j) + 1"
proof (induction i arbitrary: j)
  case 0
  show ?case by simp
next
  case (Suc i)
  show ?case
  proof (cases rule: osa_Suc_Suc_cases [of a b i j])
    case delete
    have "osa a b (Suc i) j \<le> osa a b i j + 1"
      by (rule osa_Suc_left)
    also have "\<dots> \<le> osa a b i (Suc j) + 1 + 1"
      using Suc.IH [of j] by simp
    finally show ?thesis
      using delete by simp
  next
    case insert
    then show ?thesis by simp
  next
    case substitute
    have "osa a b (Suc i) j \<le> osa a b i j + 1"
      by (rule osa_Suc_left)
    with substitute show ?thesis by simp
  next
    case transpose
    obtain i' j' where ij: "i = Suc i'" "j = Suc j'"
      using transposedD [OF transpose(1)] by blast
    have "osa a b (Suc i) j \<le> osa a b i j' + 1"
      unfolding ij by (rule osa_Suc_Suc_diag)
    also have "osa a b i j' \<le> osa a b i' j' + 1"
      unfolding ij by (rule osa_Suc_left)
    finally show ?thesis
      using transpose(2) ij by simp
  qed
qed

lemma transposed_sym: "transposed a b i j = transposed b a j i"
  by (auto simp: transposed_def)

lemma subst_cost_sym: "subst_cost a b i j = subst_cost b a j i"
  by (auto simp: subst_cost_def)

lemma osa_sym: "osa a b i j = osa b a j i"
proof (induction a b i j rule: osa.induct)
  case (1 a b j)
  show ?case by simp
next
  case (2 a b i)
  show ?case by simp
next
  case (3 a b i j)
  note r = "3.IH"(1,2,3)
  show ?case
  proof (cases "transposed a b i j")
    case True
    then have "0 < i \<and> 0 < j \<and> a ! i = b ! (j - 1) \<and> a ! (i - 1) = b ! j"
      by (simp add: transposed_def)
    then have "osa a b (i - 1) (j - 1) = osa b a (j - 1) (i - 1)"
      by (rule "3.IH"(4) [OF refl])
    with True r show ?thesis
      using transposed_sym [of a b i j] subst_cost_sym [of a b i j]
      by (simp add: osa_Suc_Suc min.commute min.left_commute)
  next
    case False
    with r show ?thesis
      using transposed_sym [of a b i j] subst_cost_sym [of a b i j]
      by (simp add: osa_Suc_Suc min.commute min.left_commute)
  qed
qed

lemma osa_le_left: "osa a b i j \<le> osa a b (Suc i) j + 1"
  using osa_le_right [of b a j i] by (simp add: osa_sym [of a b])

text \<open>Along a diagonal the distance does not decrease.\<close>

lemma osa_diag_mono: "osa a b i j \<le> osa a b (Suc i) (Suc j)"
proof (cases rule: osa_Suc_Suc_cases [of a b i j])
  case delete
  then show ?thesis using osa_le_right [of a b i j] by simp
next
  case insert
  then show ?thesis using osa_le_left [of a b i j] by simp
next
  case substitute
  then show ?thesis by simp
next
  case transpose
  obtain i' j' where ij: "i = Suc i'" "j = Suc j'"
    using transposedD [OF transpose(1)] by blast
  have "osa a b i j \<le> osa a b i' j' + 1"
    unfolding ij by (rule osa_Suc_Suc_diag)
  then show ?thesis
    using transpose(2) ij by simp
qed

lemma osa_diag_mono_add: "osa a b i j \<le> osa a b (i + k) (j + k)"
proof (induction k)
  case 0
  show ?case by simp
next
  case (Suc k)
  then show ?case
    using osa_diag_mono [of a b "i + k" "j + k"] by simp
qed

text \<open>Equal characters cost nothing.\<close>

lemma osa_equal_chars: "a ! i = b ! j \<Longrightarrow> osa a b (Suc i) (Suc j) = osa a b i j"
  using osa_diag_mono [of a b i j] osa_Suc_Suc_le(3) [of a b i j] by (simp add: subst_cost_def)

text \<open>Bounds by the lengths.\<close>

lemma osa_lower: "i \<le> osa a b i j + j" "j \<le> osa a b i j + i"
proof -
  have "i \<le> osa a b i j + j \<and> j \<le> osa a b i j + i"
  proof (induction a b i j rule: osa.induct)
    case (1 a b j)
    show ?case by simp
  next
    case (2 a b i)
    show ?case by simp
  next
    case (3 a b i j)
    note r = "3.IH"(1,2,3)
    show ?case
    proof (cases rule: osa_Suc_Suc_cases [of a b i j])
      case delete
      with r show ?thesis by simp
    next
      case insert
      with r show ?thesis by simp
    next
      case substitute
      with r show ?thesis by simp
    next
      case transpose
      then have pos: "0 < i \<and> 0 < j \<and> a ! i = b ! (j - 1) \<and> a ! (i - 1) = b ! j"
        by (simp add: transposed_def)
      then have "i - 1 \<le> osa a b (i - 1) (j - 1) + (j - 1) \<and> j - 1 \<le> osa a b (i - 1) (j - 1) + (i - 1)"
        by (rule "3.IH"(4) [OF refl])
      with transpose(2) pos show ?thesis by linarith
    qed
  qed
  then show "i \<le> osa a b i j + j" "j \<le> osa a b i j + i"
    by simp_all
qed

lemma osa_upper: "osa a b i j \<le> max i j"
proof (induction i arbitrary: j)
  case 0
  show ?case by simp
next
  case (Suc i)
  show ?case
  proof (cases j)
    case 0
    then show ?thesis by simp
  next
    case (Suc j')
    have "osa a b (Suc i) (Suc j') \<le> osa a b i j' + 1"
      by (rule osa_Suc_Suc_diag)
    with Suc.IH [of j'] show ?thesis
      unfolding Suc by simp
  qed
qed

text \<open>The distance only looks at the first \<open>i\<close> and the first \<open>j\<close> characters.\<close>

lemma osa_cong:
  "(\<And>k. k < i \<Longrightarrow> a ! k = a' ! k) \<Longrightarrow> (\<And>k. k < j \<Longrightarrow> b ! k = b' ! k)
     \<Longrightarrow> osa a b i j = osa a' b' i j"
proof (induction a b i j rule: osa.induct)
  case (1 a b j)
  show ?case by simp
next
  case (2 a b i)
  show ?case by simp
next
  case (3 a b i j)
  have a: "a ! i = a' ! i" "0 < i \<Longrightarrow> a ! (i - 1) = a' ! (i - 1)"
    using "3.prems"(1) by simp_all
  have b: "b ! j = b' ! j" "0 < j \<Longrightarrow> b ! (j - 1) = b' ! (j - 1)"
    using "3.prems"(2) by simp_all
  have t: "transposed a b i j = transposed a' b' i j"
    using a b by (auto simp: transposed_def)
  have c: "subst_cost a b i j = subst_cost a' b' i j"
    using a b by (simp add: subst_cost_def)
  have r1: "osa a b i (Suc j) = osa a' b' i (Suc j)"
    using "3.prems" by (intro "3.IH"(1)) simp_all
  have r2: "osa a b (Suc i) j = osa a' b' (Suc i) j"
    using "3.prems" by (intro "3.IH"(2)) simp_all
  have r3: "osa a b i j = osa a' b' i j"
    using "3.prems" by (intro "3.IH"(3)) simp_all
  show ?case
  proof (cases "transposed a b i j")
    case True
    then have "0 < i \<and> 0 < j \<and> a ! i = b ! (j - 1) \<and> a ! (i - 1) = b ! j"
      by (simp add: transposed_def)
    then have r4: "osa a b (i - 1) (j - 1) = osa a' b' (i - 1) (j - 1)"
      using "3.prems" by (intro "3.IH"(4) [OF refl]) simp_all
    show ?thesis
      using True t c r1 r2 r3 r4 by (simp add: osa_Suc_Suc)
  next
    case False
    then show ?thesis
      using t c r1 r2 r3 by (simp add: osa_Suc_Suc)
  qed
qed

text \<open>The distance is 0 exactly for equal prefixes.\<close>

lemma osa_same: "(\<And>k. k < i \<Longrightarrow> a ! k = b ! k) \<Longrightarrow> osa a b i i = 0"
proof (induction i)
  case 0
  show ?case by simp
next
  case (Suc i)
  have "osa a b (Suc i) (Suc i) = osa a b i i"
    using Suc.prems by (intro osa_equal_chars) simp
  with Suc show ?case by simp
qed

lemma osa_zero_imp: "osa a b i j = 0 \<Longrightarrow> i = j \<and> (\<forall>k < i. a ! k = b ! k)"
proof (induction i arbitrary: j)
  case 0
  then show ?case by simp
next
  case (Suc i)
  obtain j' where j: "j = Suc j'"
    using Suc.prems by (cases j) simp_all
  show ?case
  proof (cases rule: osa_Suc_Suc_cases [of a b i j'])
    case delete
    with Suc.prems j show ?thesis by simp
  next
    case insert
    with Suc.prems j show ?thesis by simp
  next
    case substitute
    with Suc.prems j have z: "osa a b i j' = 0" and c: "a ! i = b ! j'"
      by (simp_all add: subst_cost_def split: if_splits)
    from Suc.IH [OF z] have "i = j'" "\<forall>k < i. a ! k = b ! k"
      by simp_all
    with c j show ?thesis
      by (auto simp: less_Suc_eq)
  next
    case transpose
    with Suc.prems j show ?thesis by simp
  qed
qed

lemma osa_distance_zero_iff: "osa_distance a b = 0 \<longleftrightarrow> a = b"
proof
  assume "osa_distance a b = 0"
  then have "length a = length b \<and> (\<forall>k < length a. a ! k = b ! k)"
    unfolding osa_distance_def by (rule osa_zero_imp)
  then show "a = b"
    by (simp add: nth_equalityI)
next
  assume "a = b"
  then show "osa_distance a b = 0"
    by (simp add: osa_distance_def osa_same)
qed

lemma osa_pos:
  assumes "a ! 0 \<noteq> b ! 0" and "0 < i" and "0 < j"
  shows "0 < osa a b i j"
proof (rule ccontr)
  assume "\<not> 0 < osa a b i j"
  then have "osa a b i j = 0" by simp
  then have "\<forall>k < i. a ! k = b ! k"
    using osa_zero_imp by blast
  with assms(1,2) show False by blast
qed

text \<open>A common first character can be dropped.\<close>

lemma osa_Cons_first_row: "osa (c # a) (c # b) (Suc 0) (Suc j) = j"
proof (induction j)
  case 0
  have "osa (c # a) (c # b) (Suc 0) (Suc 0) = osa (c # a) (c # b) 0 0"
    by (rule osa_equal_chars) simp
  then show ?case by simp
next
  case (Suc j)
  have "osa (c # a) (c # b) (Suc 0) (Suc (Suc j)) \<le> osa (c # a) (c # b) (Suc 0) (Suc j) + 1"
    by (rule osa_Suc_right)
  moreover have "Suc (Suc j) \<le> osa (c # a) (c # b) (Suc 0) (Suc (Suc j)) + Suc 0"
    by (rule osa_lower(2))
  ultimately show ?case
    using Suc by simp
qed

lemma osa_Cons_first_column: "osa (c # a) (c # b) (Suc i) (Suc 0) = i"
  using osa_Cons_first_row [of c b a i] by (simp add: osa_sym [of "c # a"])

lemma osa_Cons: "osa (c # a) (c # b) (Suc i) (Suc j) = osa a b i j"
proof (induction a b i j rule: osa.induct)
  case (1 a b j)
  show ?case by (simp add: osa_Cons_first_row)
next
  case (2 a b i)
  show ?case by (simp add: osa_Cons_first_column)
next
  case (3 a b i j)
  let ?a = "c # a" and ?b = "c # b"
  note r = "3.IH"(1,2,3)
  have cost: "subst_cost ?a ?b (Suc i) (Suc j) = subst_cost a b i j"
    by (simp add: subst_cost_def)
  let ?base = "min (min (osa a b i (Suc j) + 1) (osa a b (Suc i) j + 1))
                   (osa a b i j + subst_cost a b i j)"
  have base: "min (min (osa ?a ?b (Suc i) (Suc (Suc j)) + 1) (osa ?a ?b (Suc (Suc i)) (Suc j) + 1))
                  (osa ?a ?b (Suc i) (Suc j) + subst_cost ?a ?b (Suc i) (Suc j)) = ?base"
    by (simp only: r cost)
  have lhs: "osa ?a ?b (Suc (Suc i)) (Suc (Suc j)) =
               (if transposed ?a ?b (Suc i) (Suc j) then min ?base (osa ?a ?b i j + 1) else ?base)"
    unfolding osa_Suc_Suc [of ?a ?b "Suc i" "Suc j"] base by simp
  show ?case
  proof (cases "transposed a b i j")
    case True
    then have pos: "0 < i \<and> 0 < j \<and> a ! i = b ! (j - 1) \<and> a ! (i - 1) = b ! j"
      by (simp add: transposed_def)
    then have "osa ?a ?b (Suc (i - 1)) (Suc (j - 1)) = osa a b (i - 1) (j - 1)"
      by (rule "3.IH"(4) [OF refl])
    then have t: "osa ?a ?b i j = osa a b (i - 1) (j - 1)"
      using pos by simp
    have "transposed ?a ?b (Suc i) (Suc j)"
      using pos by (cases i; cases j) (simp_all add: transposed_def)
    then show ?thesis
      using True by (simp add: lhs t osa_Suc_Suc [of a b i j])
  next
    case False
    then have rhs: "osa a b (Suc i) (Suc j) = ?base"
      by (simp add: osa_Suc_Suc)
    show ?thesis
    proof (cases "transposed ?a ?b (Suc i) (Suc j)")
      case no: False
      then show ?thesis by (simp add: lhs rhs)
    next
      case yes: True
      have edge: "i = 0 \<or> j = 0"
      proof (rule ccontr)
        assume "\<not> (i = 0 \<or> j = 0)"
        then have "transposed a b i j"
          using yes by (cases i; cases j) (simp_all add: transposed_def)
        with False show False by simp
      qed
      have "osa ?a ?b i j = max i j"
        using edge by auto
      moreover have "?base \<le> max (Suc i) (Suc j)"
        using osa_upper [of a b "Suc i" "Suc j"] rhs by simp
      ultimately have "min ?base (osa ?a ?b i j + 1) = ?base"
        by simp
      then show ?thesis
        using yes by (simp add: lhs rhs)
    qed
  qed
qed

lemma osa_append_prefix:
  "osa (p @ a) (p @ b) (length p + i) (length p + j) = osa a b i j"
  by (induction p) (simp_all add: osa_Cons)

text \<open>A common suffix can be dropped.\<close>

lemma osa_append_suffix_index:
  "k \<le> length s
     \<Longrightarrow> osa (a @ s) (b @ s) (length a + k) (length b + k) = osa (a @ s) (b @ s) (length a) (length b)"
proof (induction k)
  case 0
  show ?case by simp
next
  case (Suc k)
  have "(a @ s) ! (length a + k) = (b @ s) ! (length b + k)"
    by (simp add: nth_append)
  then have "osa (a @ s) (b @ s) (Suc (length a + k)) (Suc (length b + k))
               = osa (a @ s) (b @ s) (length a + k) (length b + k)"
    by (rule osa_equal_chars)
  with Suc show ?case by simp
qed

lemma osa_append_suffix:
  "osa (a @ s) (b @ s) (length a + length s) (length b + length s) = osa a b (length a) (length b)"
proof -
  have "osa (a @ s) (b @ s) (length a) (length b) = osa a b (length a) (length b)"
    by (rule osa_cong) (simp_all add: nth_append)
  then show ?thesis
    by (simp add: osa_append_suffix_index)
qed

lemma osa_distance_strip:
  "osa_distance (p @ a @ s) (p @ b @ s) = osa_distance a b"
proof -
  have "osa_distance (p @ a @ s) (p @ b @ s)
          = osa (p @ a @ s) (p @ b @ s) (length p + (length a + length s)) (length p + (length b + length s))"
    by (simp add: osa_distance_def)
  also have "\<dots> = osa (a @ s) (b @ s) (length a + length s) (length b + length s)"
    by (rule osa_append_prefix)
  also have "\<dots> = osa_distance a b"
    by (simp add: osa_append_suffix osa_distance_def)
  finally show ?thesis .
qed

lemma osa_distance_sym: "osa_distance a b = osa_distance b a"
  by (simp add: osa_distance_def osa_sym [of a b])

lemma osa_distance_lower:
  "length a \<le> osa_distance a b + length b" "length b \<le> osa_distance a b + length a"
  unfolding osa_distance_def by (rule osa_lower)+

lemma osa_distance_Nil: "osa_distance [] b = length b"
  by (simp add: osa_distance_def)

section \<open>The distance kernel against the reference\<close>

subsection \<open>Array reads after writes\<close>

lemma js_get_set: "js_get (js_set a j v) k = (if k = j then v else js_get a k)"
  by (simp add: js_get_def js_set_def)

lemma js_get_fill:
  "js_get (fold (\<lambda>j a. js_set a j (f j)) [0..<n] e) k = (if k < n then f k else js_get e k)"
  by (induction n) (simp_all add: js_get_set less_Suc_eq)

lemma js_get_empty: "js_get empty_array k = None"
  by (simp add: js_get_def empty_array_def)

subsection \<open>Values that are right where it matters\<close>

text \<open>
  The banded loop does not keep the true distance \<open>d\<close> in every cell. A cell is
  \<open>k\<close> columns off the diagonal that ends in the last cell, so any alignment through
  it costs at least \<open>d + k\<close>. The stored value \<open>v\<close> is the true one where \<open>d + k\<close> is
  within \<open>m\<close>, and elsewhere it is large enough that \<open>v + k\<close> exceeds \<open>m\<close> as well.
\<close>

definition safe :: "int \<Rightarrow> int \<Rightarrow> int \<Rightarrow> int \<Rightarrow> bool" where
  "safe m v d k = (if d + k \<le> m then v = d else m < v + k)"

lemma safe_exact: "safe m d d k"
  by (simp add: safe_def)

lemma safe_beyond: "m < d \<Longrightarrow> 0 \<le> k \<Longrightarrow> safe m (m + 1) d k"
  by (simp add: safe_def)

lemma safe_edge: "0 < d \<Longrightarrow> 0 < v \<Longrightarrow> m \<le> k \<Longrightarrow> safe m v d k"
  by (simp add: safe_def)

lemma safe_diagonal: "safe m v d 0 \<Longrightarrow> (m < v) = (m < d)"
  by (auto simp: safe_def split: if_splits)

lemma safe_diagonal_value: "safe m v d 0 \<Longrightarrow> d \<le> m \<Longrightarrow> v = d"
  by (auto simp: safe_def split: if_splits)

text \<open>
  What the value \<open>v\<close> of a neighbour with true distance \<open>dp\<close> may be, seen from a cell
  with true distance \<open>d\<close> that is \<open>k\<close> off the diagonal.
\<close>

definition neighbour_ok :: "int \<Rightarrow> int \<Rightarrow> int \<Rightarrow> int \<Rightarrow> int \<Rightarrow> bool" where
  "neighbour_ok m v dp d k =
     ((d + k \<le> m \<and> dp + 1 = d \<longrightarrow> v = dp)
      \<and> (d + k \<le> m \<longrightarrow> d \<le> v + 1)
      \<and> (m < d + k \<longrightarrow> m < v + 1 + k))"

lemma safe_neighbour:
  "safe m v dp kp \<Longrightarrow> kp \<le> k + 1 \<Longrightarrow> d \<le> dp + 1 \<Longrightarrow> neighbour_ok m v dp d k"
  unfolding safe_def neighbour_ok_def by (cases "dp + kp \<le> m") auto

lemma virtual_neighbour: "d \<le> v + 1 \<Longrightarrow> neighbour_ok m v (v + 1) d k"
  unfolding neighbour_ok_def by auto

lemma neighbours_min3:
  assumes "d = min (min (d1 + 1) (d2 + 1)) (d3 + 1)"
    and "neighbour_ok m v1 d1 d k" and "neighbour_ok m v2 d2 d k" and "neighbour_ok m v3 d3 d k"
  shows "safe m (min (min v1 v2) v3 + 1) d k"
proof (cases "d + k \<le> m")
  case True
  have ge: "d \<le> v1 + 1" "d \<le> v2 + 1" "d \<le> v3 + 1"
    using assms(2-4) True by (simp_all add: neighbour_ok_def)
  have "d1 + 1 = d \<or> d2 + 1 = d \<or> d3 + 1 = d"
    using assms(1) by (auto simp: min_def)
  then have "v1 + 1 = d \<or> v2 + 1 = d \<or> v3 + 1 = d"
    using assms(2-4) True by (auto simp: neighbour_ok_def)
  with ge have "min (min v1 v2) v3 + 1 = d"
    by (auto simp: min_def)
  with True show ?thesis
    by (simp add: safe_def)
next
  case False
  then have "m < v1 + 1 + k" "m < v2 + 1 + k" "m < v3 + 1 + k"
    using assms(2-4) by (simp_all add: neighbour_ok_def)
  then have "m < min (min v1 v2) v3 + 1 + k"
    by (auto simp: min_def)
  with False show ?thesis
    by (simp add: safe_def)
qed

lemma neighbours_min4:
  assumes "d = min (min (min (d1 + 1) (d2 + 1)) (d3 + 1)) (d4 + 1)"
    and "neighbour_ok m v1 d1 d k" and "neighbour_ok m v2 d2 d k" and "neighbour_ok m v3 d3 d k"
    and "neighbour_ok m v4 d4 d k"
  shows "safe m (min (min (min v1 v2) v3 + 1) (v4 + 1)) d k"
proof (cases "d + k \<le> m")
  case True
  have ge: "d \<le> v1 + 1" "d \<le> v2 + 1" "d \<le> v3 + 1" "d \<le> v4 + 1"
    using assms(2-5) True by (simp_all add: neighbour_ok_def)
  have "d1 + 1 = d \<or> d2 + 1 = d \<or> d3 + 1 = d \<or> d4 + 1 = d"
    using assms(1) by (auto simp: min_def)
  then have "v1 + 1 = d \<or> v2 + 1 = d \<or> v3 + 1 = d \<or> v4 + 1 = d"
    using assms(2-5) True by (auto simp: neighbour_ok_def)
  with ge have "min (min (min v1 v2) v3 + 1) (v4 + 1) = d"
    by (auto simp: min_def)
  with True show ?thesis
    by (simp add: safe_def)
next
  case False
  then have "m < v1 + 1 + k" "m < v2 + 1 + k" "m < v3 + 1 + k" "m < v4 + 1 + k"
    using assms(2-5) by (simp_all add: neighbour_ok_def)
  then have "m < min (min (min v1 v2) v3 + 1) (v4 + 1) + k"
    by (auto simp: min_def)
  with False show ?thesis
    by (simp add: safe_def)
qed

subsection \<open>One cell\<close>

text \<open>
  The value that \<open>cell_step\<close> stores, as a function of what it reads: \<open>same\<close> says that
  the two characters are equal, \<open>flag\<close> that the test for a transposition passed up to
  the comparison of the costs; \<open>vd\<close>, \<open>va\<close>, \<open>vl\<close> are \<open>leftCharCost\<close> (the diagonal),
  \<open>aboveCharCost\<close> and \<open>char1Costs[j]\<close>, and \<open>t\<close> is \<open>thisTransCost\<close>.
\<close>

definition cell_value :: "bool \<Rightarrow> bool \<Rightarrow> int \<Rightarrow> int \<Rightarrow> int \<Rightarrow> jsnum \<Rightarrow> int" where
  "cell_value same flag vd va vl t =
     (if same then vd
      else (case t of
              None \<Rightarrow> min (min va vd) vl + 1
            | Some tv \<Rightarrow> if flag \<and> tv + 1 < min (min va vd) vl + 1 then tv + 1
                         else min (min va vd) vl + 1))"

lemma cell_step_eq:
  assumes "leftCharCost s = Some vd" and "aboveCharCost s = Some va"
    and "js_get (char1Costs s) j = Some vl"
  shows "cell_step string2 start i char1 prevChar1 j s =
           \<lparr>char1Costs = js_set (char1Costs s) j
               (Some (cell_value (char1 = js_char string2 (start + j))
                        (i \<noteq> 0 \<and> j \<noteq> 0 \<and> char1 = char2 s \<and> prevChar1 = js_char string2 (start + j))
                        vd va vl (nextTransCost s))),
            prevChar1Costs = js_set (prevChar1Costs s) j (Some vd),
            currentCost =
               Some (cell_value (char1 = js_char string2 (start + j))
                        (i \<noteq> 0 \<and> j \<noteq> 0 \<and> char1 = char2 s \<and> prevChar1 = js_char string2 (start + j))
                        vd va vl (nextTransCost s)),
            leftCharCost = Some vl,
            aboveCharCost =
               Some (cell_value (char1 = js_char string2 (start + j))
                        (i \<noteq> 0 \<and> j \<noteq> 0 \<and> char1 = char2 s \<and> prevChar1 = js_char string2 (start + j))
                        vd va vl (nextTransCost s)),
            nextTransCost = js_get (prevChar1Costs s) j,
            char2 = js_char string2 (start + j)\<rparr>"
proof -
  have m: "(if js_lt (Some vl) (if js_lt (Some va) (Some vd) then Some va else Some vd)
            then Some vl else (if js_lt (Some va) (Some vd) then Some va else Some vd))
           = Some (min (min va vd) vl)"
    by (simp add: min_def)
  show ?thesis
    unfolding cell_step_def Let_def assms m
    by (cases "nextTransCost s") (simp_all add: cell_value_def)
qed

lemma int_osa_Suc_Suc:
  "int (osa a b (Suc i) (Suc j)) =
     (if transposed a b i j
      then min (min (min (int (osa a b i (Suc j)) + 1) (int (osa a b (Suc i) j) + 1))
                    (int (osa a b i j) + int (subst_cost a b i j)))
               (int (osa a b (i - 1) (j - 1)) + 1)
      else min (min (int (osa a b i (Suc j)) + 1) (int (osa a b (Suc i) j) + 1))
               (int (osa a b i j) + int (subst_cost a b i j)))"
proof (cases "transposed a b i j")
  case True
  then show ?thesis
    by (simp only: osa_Suc_Suc if_True of_nat_min of_nat_add of_nat_1)
next
  case False
  then show ?thesis
    by (simp only: osa_Suc_Suc if_False of_nat_min of_nat_add of_nat_1)
qed

text \<open>A cell whose four neighbours are right where it matters is right where it matters.\<close>

lemma cell_value_inner:
  assumes diag: "safe m vd (int (osa A B i j)) k"
    and above: "safe m va (int (osa A B (Suc i) j)) ka" "ka \<le> k + 1"
    and left: "safe m vl (int (osa A B i (Suc j))) kl" "kl \<le> k + 1"
    and trans: "transposed A B i j \<Longrightarrow> \<exists>tv. t = Some tv \<and> safe m tv (int (osa A B (i - 1) (j - 1))) k"
    and same: "same = (A ! i = B ! j)"
    and flag: "flag = transposed A B i j"
  shows "safe m (cell_value same flag vd va vl t) (int (osa A B (Suc i) (Suc j))) k"
proof (cases "A ! i = B ! j")
  case True
  then have "osa A B (Suc i) (Suc j) = osa A B i j"
    by (rule osa_equal_chars)
  with True diag same show ?thesis
    by (simp add: cell_value_def)
next
  case False
  let ?d = "int (osa A B (Suc i) (Suc j))"
  have cost: "int (subst_cost A B i j) = 1"
    using False by (simp add: subst_cost_def)
  have le: "?d \<le> int (osa A B (Suc i) j) + 1" "?d \<le> int (osa A B i j) + 1"
    "?d \<le> int (osa A B i (Suc j)) + 1"
    using osa_Suc_Suc_le(1,2) [of A B i j] osa_Suc_Suc_diag [of A B i j] by linarith+
  have na: "neighbour_ok m va (int (osa A B (Suc i) j)) ?d k"
    by (rule safe_neighbour [OF above le(1)])
  have nd: "neighbour_ok m vd (int (osa A B i j)) ?d k"
    by (rule safe_neighbour [OF diag _ le(2)]) linarith
  have nl: "neighbour_ok m vl (int (osa A B i (Suc j))) ?d k"
    by (rule safe_neighbour [OF left le(3)])
  show ?thesis
  proof (cases "transposed A B i j")
    case no: False
    have d: "?d = min (min (int (osa A B (Suc i) j) + 1) (int (osa A B i j) + 1))
                      (int (osa A B i (Suc j)) + 1)"
      using no cost by (simp add: int_osa_Suc_Suc min.commute min.left_commute)
    have "safe m (min (min va vd) vl + 1) ?d k"
      using d na nd nl by (rule neighbours_min3)
    moreover have "cell_value same flag vd va vl t = min (min va vd) vl + 1"
      using False same flag no by (simp add: cell_value_def split: option.splits)
    ultimately show ?thesis by simp
  next
    case yes: True
    then obtain tv where t: "t = Some tv" "safe m tv (int (osa A B (i - 1) (j - 1))) k"
      using trans by blast
    have "?d \<le> int (osa A B (i - 1) (j - 1)) + 1"
      using osa_Suc_Suc_trans_le [OF yes] by linarith
    then have nt: "neighbour_ok m tv (int (osa A B (i - 1) (j - 1))) ?d k"
      by (intro safe_neighbour [OF t(2)]) linarith+
    have d: "?d = min (min (min (int (osa A B (Suc i) j) + 1) (int (osa A B i j) + 1))
                           (int (osa A B i (Suc j)) + 1))
                      (int (osa A B (i - 1) (j - 1)) + 1)"
      using yes cost by (simp add: int_osa_Suc_Suc min.commute min.left_commute)
    have "safe m (min (min (min va vd) vl + 1) (tv + 1)) ?d k"
      using d na nd nl nt by (rule neighbours_min4)
    moreover have "cell_value same flag vd va vl t = min (min (min va vd) vl + 1) (tv + 1)"
      using False same flag yes t(1) by (simp add: cell_value_def min_def)
    ultimately show ?thesis by simp
  qed
qed

text \<open>The first column, where \<open>aboveCharCost\<close> starts as \<open>i\<close> and not as \<open>i + 1\<close>.\<close>

lemma cell_value_first_column:
  assumes left: "safe m vl (int (osa A B i (Suc 0))) kl" "kl \<le> k + 1"
    and same: "same = (A ! i = B ! 0)"
  shows "safe m (cell_value same False (int i) (int i) vl t) (int (osa A B (Suc i) (Suc 0))) k"
proof (cases "A ! i = B ! 0")
  case True
  then have "osa A B (Suc i) (Suc 0) = osa A B i 0"
    by (rule osa_equal_chars)
  with True same show ?thesis
    by (simp add: cell_value_def safe_exact)
next
  case False
  let ?d = "int (osa A B (Suc i) (Suc 0))"
  have cost: "int (subst_cost A B i 0) = 1"
    using False by (simp add: subst_cost_def)
  have no: "\<not> transposed A B i 0"
    by (simp add: transposed_def)
  have le: "?d \<le> int i + 1" "?d \<le> int (osa A B i (Suc 0)) + 1"
    using osa_Suc_Suc_diag [of A B i 0] osa_Suc_Suc_le(1) [of A B i 0] by simp_all
  have na: "neighbour_ok m (int i) (int i + 1) ?d k"
    using le(1) by (rule virtual_neighbour)
  have nd: "neighbour_ok m (int i) (int i) ?d k"
    by (rule safe_neighbour [OF safe_exact [of m _ k] _ le(1)]) linarith
  have nl: "neighbour_ok m vl (int (osa A B i (Suc 0))) ?d k"
    by (rule safe_neighbour [OF left le(2)])
  have d: "?d = min (min (int i + 1 + 1) (int i + 1)) (int (osa A B i (Suc 0)) + 1)"
    using no cost by (simp add: int_osa_Suc_Suc min.commute min.left_commute)
  have "safe m (min (min (int i) (int i)) vl + 1) ?d k"
    using d na nd nl by (rule neighbours_min3)
  moreover have "cell_value same False (int i) (int i) vl t = min (min (int i) (int i)) vl + 1"
    using False same by (simp add: cell_value_def split: option.splits)
  ultimately show ?thesis by simp
qed

text \<open>The left edge of the band: all that matters is that the value is positive.\<close>

lemma cell_value_positive:
  "0 < vd \<Longrightarrow> 0 < va \<Longrightarrow> 0 < vl \<Longrightarrow> 0 < cell_value same flag vd va vl (Some 0)"
  by (simp add: cell_value_def)

subsection \<open>One row\<close>

text \<open>
  \<open>A\<close> and \<open>B\<close> are the two strings without their common prefix and suffix, \<open>m\<close> is
  \<open>maxDistance\<close> and \<open>dl\<close> is \<open>lenDiff\<close>. A stored cost is right where it matters for
  the cell of the first \<open>I\<close> characters of \<open>A\<close> and the first \<open>J\<close> characters of \<open>B\<close>.
\<close>

definition approx :: "string \<Rightarrow> string \<Rightarrow> int \<Rightarrow> int \<Rightarrow> jsnum \<Rightarrow> nat \<Rightarrow> nat \<Rightarrow> bool" where
  "approx A B m dl x I J =
     (\<exists>v. x = Some v \<and> safe m v (int (osa A B I J)) \<bar>dl + int I - int J\<bar>)"

lemma approxI: "safe m v (int (osa A B I J)) \<bar>dl + int I - int J\<bar> \<Longrightarrow> approx A B m dl (Some v) I J"
  by (simp add: approx_def)

lemma approxE:
  assumes "approx A B m dl x I J"
  obtains v where "x = Some v" "safe m v (int (osa A B I J)) \<bar>dl + int I - int J\<bar>"
  using assms by (auto simp: approx_def)

text \<open>
  What holds before column \<open>j\<close> of row \<open>i\<close>, when the row started at column \<open>js\<close> with
  the arrays \<open>c0\<close> and \<open>p0\<close>.
\<close>

definition row_inv ::
  "string \<Rightarrow> string \<Rightarrow> int \<Rightarrow> int \<Rightarrow> nat \<Rightarrow> nat \<Rightarrow> js_array \<Rightarrow> js_array \<Rightarrow> nat \<Rightarrow> row_state \<Rightarrow> bool" where
  "row_inv A B m dl i js c0 p0 j s =
     ((\<forall>k. js \<le> k \<and> k < j \<longrightarrow> approx A B m dl (js_get (char1Costs s) k) (Suc i) (Suc k))
      \<and> (\<forall>k. \<not> (js \<le> k \<and> k < j) \<longrightarrow> js_get (char1Costs s) k = js_get c0 k)
      \<and> (\<forall>k. js \<le> k \<and> k < j \<longrightarrow> approx A B m dl (js_get (prevChar1Costs s) k) i k)
      \<and> (\<forall>k. \<not> (js \<le> k \<and> k < j) \<longrightarrow> js_get (prevChar1Costs s) k = js_get p0 k)
      \<and> (if j = js
          then leftCharCost s = Some (int i) \<and> aboveCharCost s = Some (int i)
               \<and> nextTransCost s = Some 0 \<and> char2 s = Some CHR '' ''
          else leftCharCost s = js_get c0 (j - 1)
               \<and> aboveCharCost s = js_get (char1Costs s) (j - 1)
               \<and> nextTransCost s = js_get p0 (j - 1)
               \<and> char2 s = Some (B ! (j - 1))
               \<and> currentCost s = js_get (char1Costs s) (j - 1)))"

text \<open>What the row needs of the arrays it starts with and of the strings.\<close>

definition row_pre ::
  "string \<Rightarrow> string \<Rightarrow> int \<Rightarrow> int \<Rightarrow> string \<Rightarrow> nat \<Rightarrow> nat \<Rightarrow> char option \<Rightarrow> char option
     \<Rightarrow> nat \<Rightarrow> nat \<Rightarrow> js_array \<Rightarrow> js_array \<Rightarrow> bool" where
  "row_pre A B m dl string2 start i char1 prevChar1 js je c0 p0 =
     ((\<forall>k. js \<le> k \<and> k < je \<longrightarrow> approx A B m dl (js_get c0 k) i (Suc k))
      \<and> (0 < i \<longrightarrow> (\<forall>k. js \<le> k \<and> Suc k < je \<longrightarrow> approx A B m dl (js_get p0 k) (i - 1) k))
      \<and> (js = 0 \<or> (0 < i \<and> int js + m = int i + dl))
      \<and> A ! 0 \<noteq> B ! 0 \<and> 1 \<le> m
      \<and> char1 = Some (A ! i) \<and> (0 < i \<longrightarrow> prevChar1 = Some (A ! (i - 1)))
      \<and> (\<forall>j < je. js_char string2 (start + j) = Some (B ! j)))"

lemma row_inv_init: "row_inv A B m dl i js c0 p0 js (row_init c0 p0 cur i)"
  by (auto simp: row_inv_def row_init_def)

lemma row_inv_step:
  assumes pre: "row_pre A B m dl string2 start i char1 prevChar1 js je c0 p0"
    and inv: "row_inv A B m dl i js c0 p0 j s"
    and j: "js \<le> j" "j < je"
  shows "row_inv A B m dl i js c0 p0 (Suc j) (cell_step string2 start i char1 prevChar1 j s)"
proof -
  have H1: "approx A B m dl (js_get c0 k) i (Suc k)" if "js \<le> k" "k < je" for k
    using pre that by (simp add: row_pre_def)
  have H2: "approx A B m dl (js_get p0 k) (i - 1) k" if "0 < i" "js \<le> k" "Suc k < je" for k
    using pre that by (simp add: row_pre_def)
  have H3: "js = 0 \<or> (0 < i \<and> int js + m = int i + dl)"
    and first: "A ! 0 \<noteq> B ! 0" and m1: "1 \<le> m"
    and c1: "char1 = Some (A ! i)" and pc1: "0 < i \<Longrightarrow> prevChar1 = Some (A ! (i - 1))"
    using pre by (simp_all add: row_pre_def)
  have c2: "js_char string2 (start + j) = Some (B ! j)"
    using pre j(2) by (simp add: row_pre_def)
  have I1: "approx A B m dl (js_get (char1Costs s) k) (Suc i) (Suc k)" if "js \<le> k" "k < j" for k
    using inv that by (simp add: row_inv_def)
  have I2: "js_get (char1Costs s) k = js_get c0 k" if "\<not> (js \<le> k \<and> k < j)" for k
    using inv that by (simp add: row_inv_def)
  have I3: "approx A B m dl (js_get (prevChar1Costs s) k) i k" if "js \<le> k" "k < j" for k
    using inv that by (simp add: row_inv_def)
  have I4: "js_get (prevChar1Costs s) k = js_get p0 k" if "\<not> (js \<le> k \<and> k < j)" for k
    using inv that by (simp add: row_inv_def)
  have start: "leftCharCost s = Some (int i)" "aboveCharCost s = Some (int i)"
    "nextTransCost s = Some 0" "char2 s = Some CHR '' ''" if "j = js"
    using inv that by (simp_all add: row_inv_def)
  have later: "leftCharCost s = js_get c0 (j - 1)" "aboveCharCost s = js_get (char1Costs s) (j - 1)"
    "nextTransCost s = js_get p0 (j - 1)" "char2 s = Some (B ! (j - 1))" if "j \<noteq> js"
    using inv that by (simp_all add: row_inv_def)
  \<comment> \<open>the three costs the step reads\<close>
  obtain vl where vl: "js_get (char1Costs s) j = Some vl"
    "safe m vl (int (osa A B i (Suc j))) \<bar>dl + int i - int (Suc j)\<bar>"
    using H1 [OF j] I2 [of j] by (auto elim: approxE)
  obtain vd where vd: "leftCharCost s = Some vd"
    "safe m vd (int (osa A B i j)) \<bar>dl + int i - int j\<bar>"
  proof (cases "j = js")
    case False
    then have "approx A B m dl (leftCharCost s) i (Suc (j - 1))"
      using later(1) H1 [of "j - 1"] j by simp
    then show ?thesis
      using False j that by (auto elim: approxE)
  next
    case True
    show ?thesis
    proof (cases "js = 0")
      case zero: True
      have "safe m (int i) (int (osa A B i j)) \<bar>dl + int i - int j\<bar>"
        using True zero by (simp add: safe_exact)
      with start(1) [OF True] that show ?thesis by blast
    next
      case False
      then have e: "0 < i" "int js + m = int i + dl"
        using H3 by simp_all
      have "0 < osa A B i j"
        using first e(1) False True by (intro osa_pos) simp_all
      then have "safe m (int i) (int (osa A B i j)) \<bar>dl + int i - int j\<bar>"
        using e True by (intro safe_edge) simp_all
      with start(1) [OF True] that show ?thesis by blast
    qed
  qed
  obtain va where va: "aboveCharCost s = Some va"
    "j \<noteq> js \<Longrightarrow> safe m va (int (osa A B (Suc i) j)) \<bar>dl + int (Suc i) - int j\<bar>"
    "j = js \<Longrightarrow> va = int i"
  proof (cases "j = js")
    case True
    with start(2) that show ?thesis by blast
  next
    case False
    then have "approx A B m dl (aboveCharCost s) (Suc i) (Suc (j - 1))"
      using later(2) I1 [of "j - 1"] j by simp
    then show ?thesis
      using False j that by (auto elim: approxE)
  qed
  let ?same = "char1 = js_char string2 (start + j)"
  let ?flag = "i \<noteq> 0 \<and> j \<noteq> 0 \<and> char1 = char2 s \<and> prevChar1 = js_char string2 (start + j)"
  let ?v = "cell_value ?same ?flag vd va vl (nextTransCost s)"
  let ?s' = "cell_step string2 start i char1 prevChar1 j s"
  note eq = cell_step_eq [OF vd(1) va(1) vl(1), of string2 start i char1 prevChar1]
  have same: "?same = (A ! i = B ! j)"
    by (simp add: c1 c2)
  \<comment> \<open>the new cell\<close>
  have cell: "safe m ?v (int (osa A B (Suc i) (Suc j))) \<bar>dl + int (Suc i) - int (Suc j)\<bar>"
  proof (cases "j = js")
    case False
    then have jpos: "0 < j" using j by simp
    have flag: "?flag = transposed A B i j"
    proof (cases "i = 0")
      case True
      then show ?thesis by (simp add: transposed_def)
    next
      case False
      then show ?thesis
        using jpos later(4) [OF \<open>j \<noteq> js\<close>] pc1 c1 c2 by (simp add: transposed_def)
    qed
    have trans: "\<exists>tv. nextTransCost s = Some tv
                   \<and> safe m tv (int (osa A B (i - 1) (j - 1))) \<bar>dl + int (Suc i) - int (Suc j)\<bar>"
      if "transposed A B i j"
    proof -
      have ipos: "0 < i" using that by (simp add: transposed_def)
      have "approx A B m dl (js_get p0 (j - 1)) (i - 1) (j - 1)"
        using ipos False j by (intro H2) simp_all
      moreover have "\<bar>dl + int (i - 1) - int (j - 1)\<bar> = \<bar>dl + int (Suc i) - int (Suc j)\<bar>"
        using ipos jpos by simp
      ultimately show ?thesis
        using later(3) [OF False] by (auto elim: approxE)
    qed
    have keq: "\<bar>dl + int (Suc i) - int (Suc j)\<bar> = \<bar>dl + int i - int j\<bar>"
      by simp
    have "safe m vd (int (osa A B i j)) \<bar>dl + int (Suc i) - int (Suc j)\<bar>"
      using vd(2) by (simp only: keq)
    moreover have "\<bar>dl + int (Suc i) - int j\<bar> \<le> \<bar>dl + int (Suc i) - int (Suc j)\<bar> + 1"
      by simp
    moreover have "\<bar>dl + int i - int (Suc j)\<bar> \<le> \<bar>dl + int (Suc i) - int (Suc j)\<bar> + 1"
      by simp
    ultimately show ?thesis
      using va(2) [OF False] vl(2) trans same flag by (intro cell_value_inner)
  next
    case True
    show ?thesis
    proof (cases "js = 0")
      case zero: True
      then have j0: "j = 0" using True by simp
      have "?flag = False" using j0 by simp
      moreover have "\<bar>dl + int i - int (Suc 0)\<bar> \<le> \<bar>dl + int (Suc i) - int (Suc 0)\<bar> + 1"
        by simp
      moreover have "vd = int i"
        using start(1) [OF True] vd(1) by simp
      ultimately show ?thesis
        using vl(2) same va(3) [OF True] unfolding j0
        by (simp only:) (intro cell_value_first_column, simp_all)
    next
      case False
      then have e: "0 < i" "int js + m = int i + dl"
        using H3 by simp_all
      have vd0: "vd = int i" and t0: "nextTransCost s = Some 0"
        using start(1,3) [OF True] vd(1) by simp_all
      have "0 < osa A B i (Suc j)"
        using first e(1) by (intro osa_pos) simp_all
      then have "0 < vl"
        using vl(2) e m1 True unfolding safe_def by (auto split: if_splits)
      then have "0 < ?v"
        using e(1) vd0 va(3) [OF True] unfolding t0 by (intro cell_value_positive) simp_all
      moreover have "0 < osa A B (Suc i) (Suc j)"
        using first by (intro osa_pos) simp_all
      ultimately show ?thesis
        using e True by (intro safe_edge) simp_all
    qed
  qed
  \<comment> \<open>the fields of the new state\<close>
  have f: "char1Costs ?s' = js_set (char1Costs s) j (Some ?v)"
    "prevChar1Costs ?s' = js_set (prevChar1Costs s) j (Some vd)"
    "currentCost ?s' = Some ?v" "leftCharCost ?s' = Some vl" "aboveCharCost ?s' = Some ?v"
    "nextTransCost ?s' = js_get (prevChar1Costs s) j" "char2 ?s' = js_char string2 (start + j)"
    by (simp_all add: eq)
  have "approx A B m dl (js_get (char1Costs ?s') k) (Suc i) (Suc k)" if "js \<le> k" "k < Suc j" for k
  proof (cases "k = j")
    case True
    then show ?thesis
      using cell by (simp add: f js_get_set approx_def)
  next
    case False
    then show ?thesis
      using that I1 [of k] by (simp add: f js_get_set)
  qed
  moreover have "js_get (char1Costs ?s') k = js_get c0 k" if "\<not> (js \<le> k \<and> k < Suc j)" for k
    using that j I2 [of k] by (auto simp: f js_get_set)
  moreover have "approx A B m dl (js_get (prevChar1Costs ?s') k) i k" if "js \<le> k" "k < Suc j" for k
  proof (cases "k = j")
    case True
    then show ?thesis
      using vd(2) by (simp add: f js_get_set approx_def)
  next
    case False
    then show ?thesis
      using that I3 [of k] by (simp add: f js_get_set)
  qed
  moreover have "js_get (prevChar1Costs ?s') k = js_get p0 k" if "\<not> (js \<le> k \<and> k < Suc j)" for k
    using that j I4 [of k] by (auto simp: f js_get_set)
  moreover have "leftCharCost ?s' = js_get c0 j"
    using vl(1) I2 [of j] by (simp add: f)
  moreover have "aboveCharCost ?s' = js_get (char1Costs ?s') j"
    and "currentCost ?s' = js_get (char1Costs ?s') j"
    by (simp_all add: f js_get_set)
  moreover have "nextTransCost ?s' = js_get p0 j"
    using I4 [of j] by (simp add: f)
  moreover have "char2 ?s' = Some (B ! j)"
    by (simp add: f c2)
  moreover have "Suc j \<noteq> js"
    using j by simp
  ultimately show ?thesis
    unfolding row_inv_def by (simp del: cell_step_def)
qed

lemma fold_upt_invariant:
  assumes "P js s" and "\<And>j s. js \<le> j \<Longrightarrow> j < je \<Longrightarrow> P j s \<Longrightarrow> P (Suc j) (f j s)" and "js \<le> je"
  shows "P je (fold f [js..<je] s)"
  using assms(3,2)
proof (induction je)
  case 0
  with assms(1) show ?case by simp
next
  case (Suc je)
  show ?case
  proof (cases "js = Suc je")
    case True
    with assms(1) show ?thesis by simp
  next
    case False
    then have le: "js \<le> je" using Suc.prems(1) by simp
    have "P je (fold f [js..<je] s)"
      using le Suc.prems(2) by (intro Suc.IH) simp_all
    then have "P (Suc je) (f je (fold f [js..<je] s))"
      using le by (intro Suc.prems(2)) simp_all
    then show ?thesis
      using le by simp
  qed
qed

text \<open>The row as a whole.\<close>

lemma row_inv_fold:
  assumes pre: "row_pre A B m dl string2 start i char1 prevChar1 js je c0 p0" and le: "js \<le> je"
  shows "row_inv A B m dl i js c0 p0 je
           (fold (cell_step string2 start i char1 prevChar1) [js..<je] (row_init c0 p0 cur i))"
proof -
  have init: "row_inv A B m dl i js c0 p0 js (row_init c0 p0 cur i)"
    by (rule row_inv_init)
  have step: "row_inv A B m dl i js c0 p0 (Suc j) (cell_step string2 start i char1 prevChar1 j s)"
    if "js \<le> j" "j < je" "row_inv A B m dl i js c0 p0 j s" for j s
    using pre that(3,1,2) by (rule row_inv_step)
  show ?thesis
    by (rule fold_upt_invariant [where P = "row_inv A B m dl i js c0 p0", OF init step le])
qed

lemma row_result:
  fixes cur :: jsnum
  assumes pre: "row_pre A B m dl string2 start i char1 prevChar1 js je c0 p0" and lt: "js < je"
  defines "s \<equiv> fold (cell_step string2 start i char1 prevChar1) [js..<je] (row_init c0 p0 cur i)"
  shows "\<And>k. js \<le> k \<Longrightarrow> k < je \<Longrightarrow> approx A B m dl (js_get (char1Costs s) k) (Suc i) (Suc k)"
    and "\<And>k. \<not> (js \<le> k \<and> k < je) \<Longrightarrow> js_get (char1Costs s) k = js_get c0 k"
    and "\<And>k. js \<le> k \<Longrightarrow> k < je \<Longrightarrow> approx A B m dl (js_get (prevChar1Costs s) k) i k"
    and "currentCost s = js_get (char1Costs s) (je - 1)"
proof -
  have inv: "row_inv A B m dl i js c0 p0 je s"
    unfolding s_def using pre lt by (intro row_inv_fold) simp_all
  show "\<And>k. js \<le> k \<Longrightarrow> k < je \<Longrightarrow> approx A B m dl (js_get (char1Costs s) k) (Suc i) (Suc k)"
    using inv by (simp add: row_inv_def)
  show "\<And>k. \<not> (js \<le> k \<and> k < je) \<Longrightarrow> js_get (char1Costs s) k = js_get c0 k"
    using inv by (simp add: row_inv_def)
  show "\<And>k. js \<le> k \<Longrightarrow> k < je \<Longrightarrow> approx A B m dl (js_get (prevChar1Costs s) k) i k"
    using inv by (simp add: row_inv_def)
  show "currentCost s = js_get (char1Costs s) (je - 1)"
    using inv lt by (simp add: row_inv_def)
qed

subsection \<open>The characters the loops read\<close>

lemma js_char_window:
  "start + len \<le> length s \<Longrightarrow> i < len \<Longrightarrow> js_char s (start + i) = Some (take len (drop start s) ! i)"
  by (simp add: js_char_def)

subsection \<open>\<open>_distance\<close>\<close>

text \<open>What holds before row \<open>i\<close> of \<open>_distance\<close>: every cost is right within the bound \<open>m\<close>.\<close>

definition rows_inv :: "string \<Rightarrow> string \<Rightarrow> int \<Rightarrow> int \<Rightarrow> nat \<Rightarrow> nat \<Rightarrow> rows_state \<Rightarrow> bool" where
  "rows_inv A B m dl len2 i r =
     ((0 < i \<longrightarrow> r_char1 r = Some (A ! (i - 1)))
      \<and> (\<forall>k < len2. approx A B m dl (js_get (r_char1Costs r) k) i (Suc k))
      \<and> (0 < i \<longrightarrow> (\<forall>k < len2. approx A B m dl (js_get (r_prevChar1Costs r) k) (i - 1) k))
      \<and> (0 < i \<longrightarrow> r_currentCost r = js_get (r_char1Costs r) (len2 - 1)))"

lemma rows_inv_step:
  assumes inv: "rows_inv A B m dl len2 i r"
    and win: "start + len1 \<le> length string1" "start + len2 \<le> length string2"
    and AB: "A = take len1 (drop start string1)" "B = take len2 (drop start string2)"
    and i: "i < len1" and len2: "0 < len2" and first: "A ! 0 \<noteq> B ! 0" and m: "1 \<le> m"
  shows "rows_inv A B m dl len2 (Suc i) (distance_row string1 string2 len2 start i r)"
proof -
  let ?char1 = "js_char string1 (start + i)"
  have c1: "?char1 = Some (A ! i)"
    unfolding AB using win(1) i by (rule js_char_window)
  have c2: "\<forall>j < len2. js_char string2 (start + j) = Some (B ! j)"
    unfolding AB using win(2) by (simp add: js_char_window)
  have pre: "row_pre A B m dl string2 start i ?char1 (r_char1 r) 0 len2 (r_char1Costs r) (r_prevChar1Costs r)"
    using inv c1 c2 first m unfolding row_pre_def rows_inv_def by simp
  note res = row_result [OF pre len2, where cur = "r_currentCost r"]
  show ?thesis
    unfolding rows_inv_def distance_row_def Let_def
    using res c1 by simp
qed

lemma rows_inv_fold:
  assumes inv: "rows_inv A B m dl len2 0 r"
    and win: "start + len1 \<le> length string1" "start + len2 \<le> length string2"
    and AB: "A = take len1 (drop start string1)" "B = take len2 (drop start string2)"
    and len2: "0 < len2" and first: "A ! 0 \<noteq> B ! 0" and m: "1 \<le> m"
  shows "rows_inv A B m dl len2 len1 (fold (distance_row string1 string2 len2 start) [0..<len1] r)"
proof -
  have step: "rows_inv A B m dl len2 (Suc i) (distance_row string1 string2 len2 start i r')"
    if "0 \<le> i" "i < len1" "rows_inv A B m dl len2 i r'" for i r'
    using that(3) win AB that(2) len2 first m by (rule rows_inv_step)
  show ?thesis
    by (rule fold_upt_invariant [where P = "rows_inv A B m dl len2", OF inv step le0])
qed

lemma distance_impl_correct:
  assumes win: "start + len1 \<le> length string1" "start + len2 \<le> length string2"
    and AB: "A = take len1 (drop start string1)" "B = take len2 (drop start string2)"
    and len: "0 < len1" "len1 \<le> len2" and first: "A ! 0 \<noteq> B ! 0"
  shows "fst (distance_impl string1 string2 len1 len2 start c p) = Some (int (osa A B len1 len2))"
proof -
  define m where "m = int len2"
  define dl where "dl = int len2 - int len1"
  define c0 where "c0 = fold (\<lambda>j a. js_set a j (Some (int j + 1))) [0..<len2] empty_array"
  define init where "init = \<lparr>r_char1 = Some CHR '' '', r_currentCost = Some 0,
    r_char1Costs = c0, r_prevChar1Costs = p\<rparr>"
  define final where "final = fold (distance_row string1 string2 len2 start) [0..<len1] init"
  have len2: "0 < len2" and m1: "1 \<le> m"
    using len by (simp_all add: m_def)
  have "approx A B m dl (js_get c0 k) 0 (Suc k)" if "k < len2" for k
  proof -
    have "js_get c0 k = Some (int (osa A B 0 (Suc k)))"
      using that by (simp add: c0_def js_get_fill)
    then show ?thesis
      by (simp only: approx_def) (blast intro: safe_exact)
  qed
  then have "rows_inv A B m dl len2 0 init"
    by (simp add: rows_inv_def init_def)
  then have inv: "rows_inv A B m dl len2 len1 final"
    unfolding final_def using win AB len2 first m1 by (rule rows_inv_fold)
  then have all: "\<forall>k < len2. approx A B m dl (js_get (r_char1Costs final) k) len1 (Suc k)"
    by (simp add: rows_inv_def)
  have "len2 - 1 < len2"
    using len2 by simp
  with all have "approx A B m dl (js_get (r_char1Costs final) (len2 - 1)) len1 (Suc (len2 - 1))"
    by blast
  then obtain v where v: "js_get (r_char1Costs final) (len2 - 1) = Some v"
    "safe m v (int (osa A B len1 len2)) 0"
    using len2 by (auto simp: approx_def dl_def)
  have "int (osa A B len1 len2) \<le> m"
    using osa_upper [of A B len1 len2] len by (simp add: m_def)
  with v(2) have "v = int (osa A B len1 len2)"
    by (rule safe_diagonal_value)
  moreover have "r_currentCost final = js_get (r_char1Costs final) (len2 - 1)"
    using inv len(1) by (simp add: rows_inv_def)
  ultimately show ?thesis
    using v(1) by (simp add: distance_impl_def Let_def final_def init_def c0_def)
qed

subsection \<open>\<open>_distanceMax\<close>\<close>

lemma row_preI:
  assumes "\<And>k. js \<le> k \<Longrightarrow> k < je \<Longrightarrow> approx A B m dl (js_get c0 k) i (Suc k)"
    and "\<And>k. 0 < i \<Longrightarrow> js \<le> k \<Longrightarrow> Suc k < je \<Longrightarrow> approx A B m dl (js_get p0 k) (i - 1) k"
    and "js = 0 \<or> (0 < i \<and> int js + m = int i + dl)"
    and "A ! 0 \<noteq> B ! 0" and "1 \<le> m"
    and "char1 = Some (A ! i)" and "0 < i \<Longrightarrow> prevChar1 = Some (A ! (i - 1))"
    and "\<And>j. j < je \<Longrightarrow> js_char string2 (start + j) = Some (B ! j)"
  shows "row_pre A B m dl string2 start i char1 prevChar1 js je c0 p0"
  unfolding row_pre_def using assms by blast

text \<open>
  What holds before row \<open>i\<close> of \<open>_distanceMax\<close>. The row before it filled the columns
  from \<open>jStart\<close> up to \<open>jEnd\<close>; the columns from \<open>jEnd\<close> on still hold \<open>maxDistance + 1\<close>.
\<close>

definition band_inv ::
  "string \<Rightarrow> string \<Rightarrow> int \<Rightarrow> nat \<Rightarrow> nat \<Rightarrow> nat \<Rightarrow> nat \<Rightarrow> int \<Rightarrow> rows_state \<Rightarrow> bool" where
  "band_inv A B m len1 len2 i jStart jEnd r =
     (jStart = nat (int i - 1 - (m - (int len2 - int len1)))
      \<and> jEnd = min (int len2) (m + int i)
      \<and> (0 < i \<longrightarrow> r_char1 r = Some (A ! (i - 1)))
      \<and> (\<forall>k. int i - (m - (int len2 - int len1)) \<le> int k \<and> int k < jEnd
            \<longrightarrow> approx A B m (int len2 - int len1) (js_get (r_char1Costs r) k) i (Suc k))
      \<and> (\<forall>k. jEnd \<le> int k \<and> k < len2 \<longrightarrow> js_get (r_char1Costs r) k = Some (m + 1))
      \<and> (0 < i \<longrightarrow> (\<forall>k. jStart \<le> k \<and> int k < jEnd
            \<longrightarrow> approx A B m (int len2 - int len1) (js_get (r_prevChar1Costs r) k) (i - 1) k))
      \<and> (0 < i \<longrightarrow> r_currentCost r = js_get (r_char1Costs r) (nat jEnd - 1)))"

lemma band_invI:
  assumes "jStart = nat (int i - 1 - (m - (int len2 - int len1)))"
    and "jEnd = min (int len2) (m + int i)"
    and "0 < i \<Longrightarrow> r_char1 r = Some (A ! (i - 1))"
    and "\<And>k. int i - (m - (int len2 - int len1)) \<le> int k \<Longrightarrow> int k < jEnd
            \<Longrightarrow> approx A B m (int len2 - int len1) (js_get (r_char1Costs r) k) i (Suc k)"
    and "\<And>k. jEnd \<le> int k \<Longrightarrow> k < len2 \<Longrightarrow> js_get (r_char1Costs r) k = Some (m + 1)"
    and "\<And>k. 0 < i \<Longrightarrow> jStart \<le> k \<Longrightarrow> int k < jEnd
            \<Longrightarrow> approx A B m (int len2 - int len1) (js_get (r_prevChar1Costs r) k) (i - 1) k"
    and "0 < i \<Longrightarrow> r_currentCost r = js_get (r_char1Costs r) (nat jEnd - 1)"
  shows "band_inv A B m len1 len2 i jStart jEnd r"
  unfolding band_inv_def using assms by blast

lemma band_inv_step:
  assumes inv: "band_inv A B m len1 len2 i jStart jEnd r"
    and win: "start + len1 \<le> length string1" "start + len2 \<le> length string2"
    and AB: "A = take len1 (drop start string1)" "B = take len2 (drop start string2)"
    and i: "i < len1" and len: "len1 \<le> len2" and first: "A ! 0 \<noteq> B ! 0"
    and m: "1 \<le> m" "int len2 - int len1 \<le> m"
    and js: "jStart' = jStart + (if int i > m - (int len2 - int len1) then 1 else 0)"
    and je: "jEnd' = jEnd + (if jEnd < int len2 then 1 else 0)"
    and r': "r' = distanceMax_row string1 string2 start i jStart' jEnd' r"
  shows "band_inv A B m len1 len2 (Suc i) jStart' jEnd' r'"
    and "approx A B m (int len2 - int len1) (js_get (r_char1Costs r') (i + (len2 - len1)))
           (Suc i) (Suc (i + (len2 - len1)))"
proof -
  define dl where "dl = int len2 - int len1"
  have dl0: "0 \<le> dl" "dl \<le> m"
    using len m by (simp_all add: dl_def)
  have jS: "jStart = nat (int i - 1 - (m - dl))"
    and jE: "jEnd = min (int len2) (m + int i)"
    using inv by (simp_all add: band_inv_def dl_def)
  have ch: "r_char1 r = Some (A ! (i - 1))" if "0 < i"
    using inv that by (simp add: band_inv_def)
  have cells: "approx A B m dl (js_get (r_char1Costs r) k) i (Suc k)"
    if "int i - (m - dl) \<le> int k" "int k < jEnd" for k
    using inv that by (simp add: band_inv_def dl_def)
  have beyond: "js_get (r_char1Costs r) k = Some (m + 1)" if "jEnd \<le> int k" "k < len2" for k
    using inv that by (simp add: band_inv_def)
  have prev: "approx A B m dl (js_get (r_prevChar1Costs r) k) (i - 1) k"
    if "0 < i" "jStart \<le> k" "int k < jEnd" for k
    using inv that by (simp add: band_inv_def dl_def)
  have jS': "int jStart' = max 0 (int i - (m - dl))"
    unfolding js jS dl_def [symmetric] by (cases "m - dl < int i") simp_all
  have jE': "jEnd' = min (int len2) (m + int i + 1)"
    unfolding je jE by (cases "m + int i < int len2") simp_all
  define e where "e = nat jEnd'"
  have e: "int e = jEnd'"
    using jE' m(1) by (simp add: e_def)
  have e_len2: "e \<le> len2"
    using e jE' by linarith
  have lt: "jStart' < e"
  proof -
    have "int jStart' < int e"
      unfolding e jS' jE' using i len dl0 m(1) by (simp add: dl_def)
    then show ?thesis by simp
  qed
  have c1: "js_char string1 (start + i) = Some (A ! i)"
    unfolding AB using win(1) i by (rule js_char_window)
  have c2: "js_char string2 (start + j) = Some (B ! j)" if "j < e" for j
  proof -
    from that e_len2 have "j < len2" by simp
    with win(2) show ?thesis
      unfolding AB by (rule js_char_window)
  qed
  have pre: "row_pre A B m dl string2 start i (js_char string1 (start + i)) (r_char1 r)
               jStart' e (r_char1Costs r) (r_prevChar1Costs r)"
  proof (rule row_preI)
    fix k
    assume k: "jStart' \<le> k" "k < e"
    show "approx A B m dl (js_get (r_char1Costs r) k) i (Suc k)"
    proof (cases "int k < jEnd")
      case True
      moreover have "int i - (m - dl) \<le> int k"
        using k(1) jS' by linarith
      ultimately show ?thesis
        by (intro cells)
    next
      case False
      have k2: "k < len2"
        using k(2) e_len2 by simp
      with False have val: "js_get (r_char1Costs r) k = Some (m + 1)"
        by (intro beyond) simp_all
      have "m + int i \<le> int k"
        using False k2 unfolding jE by linarith
      moreover have "int (Suc k) \<le> int (osa A B i (Suc k)) + int i"
        using osa_lower(2) [of "Suc k" A B i] by linarith
      ultimately have "m < int (osa A B i (Suc k))"
        by linarith
      then have "safe m (m + 1) (int (osa A B i (Suc k))) \<bar>dl + int i - int (Suc k)\<bar>"
        by (rule safe_beyond) simp
      then show ?thesis
        unfolding val by (rule approxI)
    qed
  next
    fix k
    assume k: "0 < i" "jStart' \<le> k" "Suc k < e"
    have "jStart \<le> k"
      using k(2) unfolding js by simp
    moreover have "int k < jEnd"
      using k(3) e unfolding jE jE' by linarith
    ultimately show "approx A B m dl (js_get (r_prevChar1Costs r) k) (i - 1) k"
      using k(1) by (intro prev)
  next
    show "jStart' = 0 \<or> (0 < i \<and> int jStart' + m = int i + dl)"
    proof (cases "jStart' = 0")
      case True
      then show ?thesis by simp
    next
      case False
      then have pos: "0 < int jStart'" by simp
      with jS' have eq: "int jStart' = int i - (m - dl)" by linarith
      have "0 < int i" using eq pos dl0 by linarith
      moreover have "int jStart' + m = int i + dl" using eq by linarith
      ultimately show ?thesis by simp
    qed
  next
    show "A ! 0 \<noteq> B ! 0" by (rule first)
  next
    show "1 \<le> m" by (rule m(1))
  next
    show "js_char string1 (start + i) = Some (A ! i)" by (rule c1)
  next
    show "r_char1 r = Some (A ! (i - 1))" if "0 < i" using that by (rule ch)
  next
    show "js_char string2 (start + j) = Some (B ! j)" if "j < e" for j using that by (rule c2)
  qed
  define s where "s = fold (cell_step string2 start i (js_char string1 (start + i)) (r_char1 r))
    [jStart'..<e] (row_init (r_char1Costs r) (r_prevChar1Costs r) (r_currentCost r) i)"
  note res = row_result [OF pre lt, where cur = "r_currentCost r", folded s_def]
  have r'_eq: "r_char1 r' = js_char string1 (start + i)" "r_currentCost r' = currentCost s"
    "r_char1Costs r' = char1Costs s" "r_prevChar1Costs r' = prevChar1Costs s"
    unfolding r' distanceMax_row_def Let_def s_def e_def by simp_all
  show "band_inv A B m len1 len2 (Suc i) jStart' jEnd' r'"
  proof (rule band_invI)
    show "jStart' = nat (int (Suc i) - 1 - (m - (int len2 - int len1)))"
      using jS' unfolding dl_def by linarith
    show "jEnd' = min (int len2) (m + int (Suc i))"
      using jE' by simp
    show "r_char1 r' = Some (A ! (Suc i - 1))"
      using c1 r'_eq(1) by simp
  next
    fix k
    assume k: "int (Suc i) - (m - (int len2 - int len1)) \<le> int k" "int k < jEnd'"
    have "jStart' \<le> k"
      using k(1) jS' unfolding dl_def by linarith
    moreover have "k < e"
      using k(2) e by linarith
    ultimately show "approx A B m (int len2 - int len1) (js_get (r_char1Costs r') k) (Suc i) (Suc k)"
      unfolding r'_eq dl_def [symmetric] by (rule res(1))
  next
    fix k
    assume k: "jEnd' \<le> int k" "k < len2"
    have "\<not> (jStart' \<le> k \<and> k < e)"
      using k(1) e by linarith
    then have "js_get (char1Costs s) k = js_get (r_char1Costs r) k"
      by (rule res(2))
    moreover have "jEnd \<le> int k"
      using k(1) unfolding jE jE' by linarith
    ultimately show "js_get (r_char1Costs r') k = Some (m + 1)"
      unfolding r'_eq using k(2) by (simp add: beyond)
  next
    fix k
    assume k: "jStart' \<le> k" "int k < jEnd'"
    have "k < e"
      using k(2) e by linarith
    with k(1) have "approx A B m dl (js_get (prevChar1Costs s) k) i k"
      by (rule res(3))
    then show "approx A B m (int len2 - int len1) (js_get (r_prevChar1Costs r') k) (Suc i - 1) k"
      unfolding r'_eq dl_def by simp
  next
    show "r_currentCost r' = js_get (r_char1Costs r') (nat jEnd' - 1)"
      unfolding r'_eq e_def [symmetric] by (rule res(4))
  qed
  let ?kd = "i + (len2 - len1)"
  have "jStart' \<le> ?kd"
    using jS' dl0 m(1) len unfolding dl_def by linarith
  moreover have "?kd < e"
  proof -
    have "int ?kd < int e"
      unfolding e jE' using i len dl0 m(1) by (simp add: dl_def)
    then show ?thesis by simp
  qed
  ultimately show "approx A B m (int len2 - int len1) (js_get (r_char1Costs r') ?kd) (Suc i) (Suc ?kd)"
    unfolding r'_eq dl_def [symmetric] by (rule res(1))
qed

lemma distanceMax_rows_correct:
  assumes win: "start + len1 \<le> length string1" "start + len2 \<le> length string2"
    and AB: "A = take len1 (drop start string1)" "B = take len2 (drop start string2)"
    and len: "0 < len1" "len1 \<le> len2" and first: "A ! 0 \<noteq> B ! 0"
    and m: "1 \<le> m" "int len2 - int len1 \<le> m"
  shows "band_inv A B m len1 len2 i jStart jEnd r \<Longrightarrow> i \<le> len1 \<Longrightarrow>
    fst (distanceMax_rows string1 string2 len1 len2 start m i jStart jEnd r) =
      (if int (osa A B len1 len2) \<le> m then Some (int (osa A B len1 len2)) else Some (- 1))"
proof (induction n \<equiv> "len1 - i" arbitrary: i jStart jEnd r)
  case 0
  then have i: "i = len1" by simp
  define dl where "dl = int len2 - int len1"
  let ?k = "len2 - 1"
  have inv: "band_inv A B m len1 len2 len1 jStart jEnd r"
    using "0.prems"(1) unfolding i .
  have jE: "jEnd = int len2"
    using inv m(2) unfolding band_inv_def by linarith
  have "r_currentCost r = js_get (r_char1Costs r) (nat jEnd - 1)"
    using inv len(1) unfolding band_inv_def by blast
  then have cur: "r_currentCost r = js_get (r_char1Costs r) ?k"
    by (simp add: jE)
  have "int len1 - (m - (int len2 - int len1)) \<le> int ?k \<and> int ?k < jEnd"
    unfolding jE using len m(1) by linarith
  then have "approx A B m dl (js_get (r_char1Costs r) ?k) len1 (Suc ?k)"
    using inv unfolding band_inv_def dl_def by blast
  moreover have "Suc ?k = len2"
    using len by simp
  ultimately obtain v where v: "js_get (r_char1Costs r) ?k = Some v"
    "safe m v (int (osa A B len1 len2)) 0"
    by (auto simp: approx_def dl_def)
  have res: "fst (distanceMax_rows string1 string2 len1 len2 start m i jStart jEnd r) =
    (if v \<le> m then Some v else Some (- 1))"
    unfolding i distanceMax_rows.simps [of string1 string2 len1 len2 start m len1]
    using v(1) by (simp add: cur)
  show ?case
  proof (cases "int (osa A B len1 len2) \<le> m")
    case True
    with v(2) have "v = int (osa A B len1 len2)"
      by (rule safe_diagonal_value)
    with True show ?thesis
      unfolding res by simp
  next
    case False
    then have "m < v"
      using safe_diagonal [OF v(2)] by simp
    with False show ?thesis
      unfolding res by simp
  qed
next
  case (Suc n)
  then have i: "i < len1" by simp
  define jStart' where "jStart' = jStart + (if int i > m - (int len2 - int len1) then 1 else 0)"
  define jEnd' where "jEnd' = jEnd + (if jEnd < int len2 then 1 else 0)"
  define r' where "r' = distanceMax_row string1 string2 start i jStart' jEnd' r"
  let ?kd = "i + (len2 - len1)"
  note step = band_inv_step [OF Suc.prems(1) win AB i len(2) first m jStart'_def jEnd'_def r'_def]
  have kd: "nat (int i + (int len2 - int len1)) = ?kd"
    using len(2) by simp
  from step(2) obtain v where v: "js_get (r_char1Costs r') ?kd = Some v"
    "safe m v (int (osa A B (Suc i) (Suc ?kd))) 0"
    using len(2) by (auto simp: approx_def)
  have unfold: "fst (distanceMax_rows string1 string2 len1 len2 start m i jStart jEnd r) =
    (if m < v then Some (- 1)
     else fst (distanceMax_rows string1 string2 len1 len2 start m (Suc i) jStart' jEnd' r'))"
    unfolding distanceMax_rows.simps [of string1 string2 len1 len2 start m i]
    using i by (simp add: Let_def kd v(1) jStart'_def [symmetric] jEnd'_def [symmetric] r'_def [symmetric])
  show ?case
  proof (cases "m < v")
    case True
    then have "m < int (osa A B (Suc i) (Suc ?kd))"
      using safe_diagonal [OF v(2)] by simp
    moreover have "osa A B (Suc i) (Suc ?kd) \<le> osa A B (Suc i + (len1 - Suc i)) (Suc ?kd + (len1 - Suc i))"
      by (rule osa_diag_mono_add)
    moreover have "Suc i + (len1 - Suc i) = len1" "Suc ?kd + (len1 - Suc i) = len2"
      using i len(2) by simp_all
    ultimately have "m < int (osa A B len1 len2)"
      by simp
    with True show ?thesis
      unfolding unfold by simp
  next
    case False
    have "fst (distanceMax_rows string1 string2 len1 len2 start m (Suc i) jStart' jEnd' r') =
      (if int (osa A B len1 len2) \<le> m then Some (int (osa A B len1 len2)) else Some (- 1))"
      using Suc.hyps(2) step(1) i by (intro Suc.hyps(1)) simp_all
    with False show ?thesis
      unfolding unfold by simp
  qed
qed

lemma distanceMax_impl_correct:
  assumes win: "start + len1 \<le> length string1" "start + len2 \<le> length string2"
    and AB: "A = take len1 (drop start string1)" "B = take len2 (drop start string2)"
    and len: "0 < len1" "len1 \<le> len2" and first: "A ! 0 \<noteq> B ! 0"
    and m: "1 \<le> m" "int len2 - int len1 \<le> m" "m < int len2"
  shows "fst (distanceMax_impl string1 string2 len1 len2 start m c p) =
    (if int (osa A B len1 len2) \<le> m then Some (int (osa A B len1 len2)) else Some (- 1))"
proof -
  define c0 where "c0 = fold (\<lambda>j a. js_set a j (if int j < m then Some (int j + 1) else Some (m + 1)))
    [0..<len2] empty_array"
  define init where "init = \<lparr>r_char1 = Some CHR '' '', r_currentCost = Some 0,
    r_char1Costs = c0, r_prevChar1Costs = p\<rparr>"
  have get: "js_get c0 k = (if int k < m then Some (int k + 1) else Some (m + 1))" if "k < len2" for k
    using that by (simp add: c0_def js_get_fill)
  have "band_inv A B m len1 len2 0 0 m init"
  proof (rule band_invI)
    show "0 = nat (int 0 - 1 - (m - (int len2 - int len1)))"
      using m(2) by simp
    show "m = min (int len2) (m + int 0)"
      using m(3) by simp
  next
    fix k
    assume k: "int k < m"
    then have "k < len2" using m(3) by linarith
    then have "js_get c0 k = Some (int (osa A B 0 (Suc k)))"
      using k by (simp add: get)
    then show "approx A B m (int len2 - int len1) (js_get (r_char1Costs init) k) 0 (Suc k)"
      by (simp only: approx_def init_def rows_state.simps) (blast intro: safe_exact)
  next
    fix k
    assume "m \<le> int k" "k < len2"
    then show "js_get (r_char1Costs init) k = Some (m + 1)"
      by (simp add: init_def get)
  qed simp_all
  then have "fst (distanceMax_rows string1 string2 len1 len2 start m 0 0 m init) =
    (if int (osa A B len1 len2) \<le> m then Some (int (osa A B len1 len2)) else Some (- 1))"
    using win AB len first m(1,2) by (intro distanceMax_rows_correct) simp_all
  then show ?thesis
    by (simp add: distanceMax_impl_def Let_def init_def c0_def)
qed

subsection \<open>What is left of the strings\<close>

lemma suffix_loop_spec:
  assumes "len1 \<le> length s1" and "suffix_loop s1 s2 len1 len2 = (l1, l2)"
  shows "\<exists>n. l1 + n = len1 \<and> l2 + n = len2 \<and> (\<forall>k < n. s1 ! (l1 + k) = s2 ! (l2 + k))"
  using assms
proof (induction s1 s2 len1 len2 rule: suffix_loop.induct)
  case (1 s1 s2 len1 len2)
  show ?case
  proof (cases "len1 \<noteq> 0 \<and> js_char_at s1 (int len1 - 1) = js_char_at s2 (int len2 - 1)")
    case True
    have eq: "suffix_loop s1 s2 (len1 - 1) (len2 - 1) = (l1, l2)"
      using "1.prems"(2) True by (subst (asm) suffix_loop.simps) simp
    have "js_char_at s1 (int len1 - 1) = Some (s1 ! (len1 - 1))"
      using True "1.prems"(1) by (simp add: js_char_at_def nat_diff_distrib')
    with True have "js_char_at s2 (int len2 - 1) = Some (s1 ! (len1 - 1))"
      by simp
    then have pos: "0 < len2" and same: "s1 ! (len1 - 1) = s2 ! (len2 - 1)"
      by (auto simp: js_char_at_def nat_diff_distrib' split: if_splits)
    have "len1 - 1 \<le> length s1"
      using "1.prems"(1) by simp
    with "1.IH" [OF True] eq obtain n where n: "l1 + n = len1 - 1" "l2 + n = len2 - 1"
      "\<forall>k < n. s1 ! (l1 + k) = s2 ! (l2 + k)"
      by blast
    have "l1 + Suc n = len1" "l2 + Suc n = len2"
      using n(1,2) True pos by simp_all
    moreover have "s1 ! (l1 + k) = s2 ! (l2 + k)" if "k < Suc n" for k
    proof (cases "k = n")
      case True
      then show ?thesis
        using same n(1,2) by simp
    next
      case False
      with that have "k < n" by simp
      with n(3) show ?thesis by simp
    qed
    ultimately show ?thesis
      by blast
  next
    case False
    then have "suffix_loop s1 s2 len1 len2 = (len1, len2)"
      by (subst suffix_loop.simps) auto
    with "1.prems"(2) have "l1 + 0 = len1 \<and> l2 + 0 = len2"
      by simp
    then show ?thesis
      by (intro exI [of _ 0]) simp
  qed
qed

lemma prefix_loop_spec:
  assumes "start \<le> len1"
  shows "start \<le> prefix_loop s1 s2 len1 start \<and> prefix_loop s1 s2 len1 start \<le> len1
    \<and> (\<forall>k. start \<le> k \<and> k < prefix_loop s1 s2 len1 start \<longrightarrow> js_char s1 k = js_char s2 k)
    \<and> (prefix_loop s1 s2 len1 start < len1
          \<longrightarrow> js_char s1 (prefix_loop s1 s2 len1 start) \<noteq> js_char s2 (prefix_loop s1 s2 len1 start))"
  using assms
proof (induction s1 s2 len1 start rule: prefix_loop.induct)
  case (1 s1 s2 len1 start)
  show ?case
  proof (cases "start < len1 \<and> js_char s1 start = js_char s2 start")
    case True
    have eq: "prefix_loop s1 s2 len1 start = prefix_loop s1 s2 len1 (Suc start)"
      using True by (subst prefix_loop.simps) simp
    have "Suc start \<le> len1"
      using True by simp
    with "1.IH" [OF True] have IH: "Suc start \<le> prefix_loop s1 s2 len1 (Suc start)"
      "prefix_loop s1 s2 len1 (Suc start) \<le> len1"
      "\<forall>k. Suc start \<le> k \<and> k < prefix_loop s1 s2 len1 (Suc start) \<longrightarrow> js_char s1 k = js_char s2 k"
      "prefix_loop s1 s2 len1 (Suc start) < len1
         \<longrightarrow> js_char s1 (prefix_loop s1 s2 len1 (Suc start)) \<noteq> js_char s2 (prefix_loop s1 s2 len1 (Suc start))"
      by blast+
    have "js_char s1 k = js_char s2 k" if "start \<le> k" "k < prefix_loop s1 s2 len1 (Suc start)" for k
    proof (cases "k = start")
      case True
      then show ?thesis using \<open>start < len1 \<and> js_char s1 start = js_char s2 start\<close> by simp
    next
      case False
      with that(1) have "Suc start \<le> k" by simp
      with IH(3) that(2) show ?thesis by blast
    qed
    then show ?thesis
      unfolding eq using IH(1,2,4) by auto
  next
    case False
    then have eq: "prefix_loop s1 s2 len1 start = start"
      by (subst prefix_loop.simps) auto
    show ?thesis
      unfolding eq using False "1.prems" by auto
  qed
qed

lemma prefixSuffixPrep_split:
  assumes le: "length t1 \<le> length t2" and prep: "prefixSuffixPrep t1 t2 = (len1, len2, start)"
  shows "\<exists>p A B s. t1 = p @ A @ s \<and> t2 = p @ B @ s \<and> length p = start
    \<and> length A = len1 \<and> length B = len2 \<and> (A \<noteq> [] \<longrightarrow> B \<noteq> [] \<longrightarrow> A ! 0 \<noteq> B ! 0)"
proof -
  obtain l1 l2 where sl: "suffix_loop t1 t2 (length t1) (length t2) = (l1, l2)"
    by (cases "suffix_loop t1 t2 (length t1) (length t2)") blast
  from suffix_loop_spec [OF _ sl] obtain n where n: "l1 + n = length t1" "l2 + n = length t2"
    "\<forall>k < n. t1 ! (l1 + k) = t2 ! (l2 + k)"
    by auto
  define st where "st = prefix_loop t1 t2 l1 0"
  have st: "st \<le> l1" "\<forall>k. k < st \<longrightarrow> js_char t1 k = js_char t2 k"
    "st < l1 \<longrightarrow> js_char t1 st \<noteq> js_char t2 st"
    using prefix_loop_spec [of 0 l1 t1 t2] unfolding st_def by simp_all
  have "prefixSuffixPrep t1 t2 = (l1 - st, l2 - st, st)"
    by (simp add: prefixSuffixPrep_def sl Let_def st_def [symmetric])
  with prep have res: "len1 = l1 - st" "len2 = l2 - st" "start = st"
    by auto
  have l12: "l1 \<le> l2" "l1 \<le> length t1" "l2 \<le> length t2"
    using le n(1,2) by linarith+
  have suffix: "drop l1 t1 = drop l2 t2"
  proof (rule nth_equalityI)
    show "length (drop l1 t1) = length (drop l2 t2)"
      using n(1,2) by simp
  next
    fix k
    assume "k < length (drop l1 t1)"
    then have "k < n" using n(1) by simp
    with n(3) have "t1 ! (l1 + k) = t2 ! (l2 + k)" by simp
    then show "drop l1 t1 ! k = drop l2 t2 ! k"
      using l12(2,3) by simp
  qed
  have prefix: "take st t1 = take st t2"
  proof (rule nth_equalityI)
    show "length (take st t1) = length (take st t2)"
      using st(1) l12 by simp
  next
    fix k
    assume "k < length (take st t1)"
    then have k: "k < st" by simp
    with st(2) have "js_char t1 k = js_char t2 k" by simp
    moreover have "k < length t1" "k < length t2"
      using k st(1) l12 by linarith+
    ultimately have "t1 ! k = t2 ! k"
      by (simp add: js_char_def)
    with k show "take st t1 ! k = take st t2 ! k"
      by simp
  qed
  define A where "A = take (l1 - st) (drop st t1)"
  define B where "B = take (l2 - st) (drop st t2)"
  have d1: "drop (l1 - st) (drop st t1) = drop l1 t1" and d2: "drop (l2 - st) (drop st t2) = drop l2 t2"
    using st(1) l12(1) by simp_all
  have a1: "A @ drop l1 t1 = drop st t1" and b1: "B @ drop l2 t2 = drop st t2"
    unfolding A_def B_def d1 [symmetric] d2 [symmetric] by (rule append_take_drop_id)+
  have "t1 = take st t1 @ A @ drop l1 t1"
    unfolding a1 by simp
  moreover have "t2 = take st t1 @ B @ drop l1 t1"
    unfolding prefix suffix b1 by simp
  moreover have "length (take st t1) = start"
    using st(1) l12(2) by (simp add: res)
  moreover have "length A = len1" "length B = len2"
    using st(1) l12 by (simp_all add: A_def B_def res)
  moreover have "A ! 0 \<noteq> B ! 0" if "A \<noteq> []" "B \<noteq> []"
  proof -
    have lt: "st < l1" "st < l2"
      using that by (auto simp: A_def B_def)
    with st(3) have "js_char t1 st \<noteq> js_char t2 st"
      by simp
    moreover have "st < length t1" "st < length t2"
      using lt l12 by linarith+
    ultimately have "t1 ! st \<noteq> t2 ! st"
      by (simp add: js_char_def)
    moreover have "A ! 0 = t1 ! st" "B ! 0 = t2 ! st"
      using lt \<open>st < length t1\<close> \<open>st < length t2\<close> by (simp_all add: A_def B_def)
    ultimately show ?thesis by simp
  qed
  ultimately show ?thesis
    by blast
qed

subsection \<open>\<open>distance\<close>\<close>

lemma distance_unfold:
  assumes "0 < maxDistance"
    and "prefixSuffixPrep t1 t2 = (len1, len2, start)"
    and "(if length s1 > length s2 then (s2, s1) else (s1, s2)) = (t1, t2)"
    and "(if maxDistance \<le> MAX_SAFE_INTEGER then maxDistance else MAX_SAFE_INTEGER) = m"
  shows "\<exists>c p. fst (distance this (Some s1) (Some s2) maxDistance) =
    (if int (length t2) - int (length t1) > m then Some (- 1)
     else if len1 = 0 then (if int len2 \<le> m then Some (int len2) else Some (- 1))
     else if m < int len2 then fst (distanceMax_impl t1 t2 len1 len2 start m c p)
     else fst (distance_impl t1 t2 len1 len2 start c p))"
proof -
  define this' where "this' = (if len2 > alen (baseChar1Costs this)
    then \<lparr>baseChar1Costs = new_Array len2, basePrevChar1Costs = new_Array len2\<rparr> else this)"
  have "fst (distance this (Some s1) (Some s2) maxDistance) =
    (if int (length t2) - int (length t1) > m then Some (- 1)
     else if len1 = 0 then (if int len2 \<le> m then Some (int len2) else Some (- 1))
     else if m < int len2
       then fst (distanceMax_impl t1 t2 len1 len2 start m (baseChar1Costs this') (basePrevChar1Costs this'))
     else fst (distance_impl t1 t2 len1 len2 start (baseChar1Costs this') (basePrevChar1Costs this')))"
    using assms(1)
    by (simp add: distance_def Let_def assms(3) assms(4) assms(2) this'_def [symmetric]
          split: prod.splits)
  then show ?thesis by blast
qed

text \<open>
  Claim C1. For all strings \<open>a\<close> and \<open>b\<close> (a string of the host has at most \<open>2^53 - 1\<close>
  characters) and every integer \<open>maxDistance \<ge> 0\<close>, \<open>distance\<close> agrees with the
  unbounded reference dynamic program of the optimal string alignment distance, whatever
  the scratch arrays of the object hold: it returns the reference distance when that
  distance is at most \<open>maxDistance\<close>, and -1 exactly when the reference distance exceeds
  \<open>maxDistance\<close>; it returns 0 when \<open>a = b\<close>. Both \<open>_distanceMax\<close> and \<open>_distance\<close> are
  covered: which of them runs depends only on \<open>maxDistance\<close> and the lengths.
\<close>

theorem distance_refines_osa:
  assumes "0 \<le> maxDistance"
    and "int (length a) \<le> MAX_SAFE_INTEGER" and "int (length b) \<le> MAX_SAFE_INTEGER"
  shows "fst (distance this (Some a) (Some b) maxDistance) =
           (if int (osa_distance a b) \<le> maxDistance then Some (int (osa_distance a b))
            else Some (- 1))
         \<and> (a = b \<longrightarrow> fst (distance this (Some a) (Some b) maxDistance) = Some 0)"
proof -
  let ?D = "int (osa_distance a b)"
  have main: "fst (distance this (Some a) (Some b) maxDistance) =
    (if ?D \<le> maxDistance then Some ?D else Some (- 1))"
  proof (cases "maxDistance = 0")
    case True
    have "(?D \<le> 0) = (a = b)"
      using osa_distance_zero_iff [of a b] by simp
    then show ?thesis
      unfolding True by (auto simp: distance_def osa_distance_zero_iff)
  next
    case False
    with assms(1) have pos: "0 < maxDistance" by simp
    define m where "m = (if maxDistance \<le> MAX_SAFE_INTEGER then maxDistance else MAX_SAFE_INTEGER)"
    define t1 where "t1 = (if length a > length b then b else a)"
    define t2 where "t2 = (if length a > length b then a else b)"
    have swap: "(if length a > length b then (b, a) else (a, b)) = (t1, t2)"
      by (simp add: t1_def t2_def)
    have le: "length t1 \<le> length t2"
      by (simp add: t1_def t2_def)
    have D: "osa_distance t1 t2 = osa_distance a b"
      using osa_distance_sym [of a b] by (simp add: t1_def t2_def)
    have "osa_distance a b \<le> max (length a) (length b)"
      unfolding osa_distance_def by (rule osa_upper)
    with assms(2,3) have "?D \<le> MAX_SAFE_INTEGER"
      by linarith
    then have mD: "(?D \<le> m) = (?D \<le> maxDistance)"
      by (simp add: m_def)
    have m1: "1 \<le> m"
      using pos by (simp add: m_def MAX_SAFE_INTEGER_def)
    obtain len1 len2 start where prep: "prefixSuffixPrep t1 t2 = (len1, len2, start)"
      by (cases "prefixSuffixPrep t1 t2") blast
    obtain p A B s where split: "t1 = p @ A @ s" "t2 = p @ B @ s" "length p = start"
      "length A = len1" "length B = len2" "A \<noteq> [] \<longrightarrow> B \<noteq> [] \<longrightarrow> A ! 0 \<noteq> B ! 0"
      using prefixSuffixPrep_split [OF le prep] by blast
    have DA: "osa_distance a b = osa A B len1 len2"
      unfolding D [symmetric] split(1,2) osa_distance_strip by (simp add: osa_distance_def split)
    have len: "len1 \<le> len2"
      using le unfolding split(1,2) by (simp add: split(4,5))
    have diff: "int (length t2) - int (length t1) = int len2 - int len1"
      unfolding split(1,2) by (simp add: split(4,5))
    have win: "start + len1 \<le> length t1" "start + len2 \<le> length t2"
      unfolding split(1,2) by (simp_all add: split(3,4,5))
    have AB: "A = take len1 (drop start t1)" "B = take len2 (drop start t2)"
      unfolding split(1,2) by (simp_all add: split(3,4,5) [symmetric])
    from distance_unfold [OF pos prep swap m_def [symmetric]]
    obtain c q where eq: "fst (distance this (Some a) (Some b) maxDistance) =
      (if int (length t2) - int (length t1) > m then Some (- 1)
       else if len1 = 0 then (if int len2 \<le> m then Some (int len2) else Some (- 1))
       else if m < int len2 then fst (distanceMax_impl t1 t2 len1 len2 start m c q)
       else fst (distance_impl t1 t2 len1 len2 start c q))"
      by blast
    consider (far) "int len2 - int len1 > m"
      | (empty) "int len2 - int len1 \<le> m" "len1 = 0"
      | (banded) "int len2 - int len1 \<le> m" "0 < len1" "m < int len2"
      | (full) "int len2 - int len1 \<le> m" "0 < len1" "int len2 \<le> m"
      by linarith
    then have "fst (distance this (Some a) (Some b) maxDistance) =
      (if ?D \<le> m then Some ?D else Some (- 1))"
    proof cases
      case far
      have "length t2 \<le> osa_distance t1 t2 + length t1"
        by (rule osa_distance_lower)
      then have "m < ?D"
        using far unfolding D diff [symmetric] by linarith
      then show ?thesis
        unfolding eq diff using far by simp
    next
      case empty
      have "osa_distance a b = len2"
        unfolding DA empty(2) by simp
      then show ?thesis
        unfolding eq diff using empty by simp
    next
      case banded
      have first: "A ! 0 \<noteq> B ! 0"
        using banded(2) len split(4,5,6) by auto
      have "fst (distanceMax_impl t1 t2 len1 len2 start m c q) =
        (if int (osa A B len1 len2) \<le> m then Some (int (osa A B len1 len2)) else Some (- 1))"
        using win AB banded(2) len first m1 banded(1,3) by (rule distanceMax_impl_correct)
      then show ?thesis
        unfolding eq diff DA using banded by simp
    next
      case full
      have first: "A ! 0 \<noteq> B ! 0"
        using full(2) len split(4,5,6) by auto
      have "fst (distance_impl t1 t2 len1 len2 start c q) = Some (int (osa A B len1 len2))"
        using win AB full(2) len first by (rule distance_impl_correct)
      moreover have "osa A B len1 len2 \<le> max len1 len2"
        by (rule osa_upper)
      then have "int (osa A B len1 len2) \<le> m"
        using len full(3) by linarith
      ultimately show ?thesis
        unfolding eq diff DA using full by simp
    qed
    then show ?thesis
      unfolding mD .
  qed
  show ?thesis
  proof (intro conjI impI)
    show "fst (distance this (Some a) (Some b) maxDistance) =
      (if ?D \<le> maxDistance then Some ?D else Some (- 1))"
      by (rule main)
  next
    assume "a = b"
    then have "osa_distance a b = 0"
      by (simp add: osa_distance_zero_iff)
    with main assms(1) show "fst (distance this (Some a) (Some b) maxDistance) = Some 0"
      by simp
  qed
qed

theorem distance_refines_osa_witness:
  "(0 :: int) \<le> 2 \<and> int (length ''ca'') \<le> MAX_SAFE_INTEGER \<and> int (length ''abc'') \<le> MAX_SAFE_INTEGER
   \<and> osa_distance ''ca'' ''abc'' = 3
   \<and> fst (distance new_EditDistance (Some ''ca'') (Some ''abc'') 2) = Some (- 1)"
proof -
  have d: "osa_distance ''ca'' ''abc'' = 3"
    by code_simp
  have l: "int (length ''ca'') \<le> MAX_SAFE_INTEGER" "int (length ''abc'') \<le> MAX_SAFE_INTEGER"
    by (simp_all add: MAX_SAFE_INTEGER_def)
  have "fst (distance new_EditDistance (Some ''ca'') (Some ''abc'') 2) = Some (- 1)"
    using distance_refines_osa [where maxDistance = 2 and a = "''ca''" and b = "''abc''"
        and this = new_EditDistance] l
    by (simp add: d)
  with d l show ?thesis
    by simp
qed

end
